theory Spec2Isabelle
  imports Complex_Main "HOL-Library.Sublist"
begin

section \<open>Grid convergence in pysme: modelling conventions\<close>

text \<open>
  The development embeds \<^verbatim>\<open>src/pysme/grid_conv.py\<close>: the L1 norm \<^verbatim>\<open>l1_norm\<close>, the
  increment refiner \<^verbatim>\<open>double_increments\<close> and the rate estimator \<^verbatim>\<open>calc_rate\<close>.

  \<^item> A numpy array of floats is a value of \<open>ndarray\<close>: one-dimensional (\<open>A1\<close>, a list of
    components) or two-dimensional (\<open>A2 m rows\<close>, shape \<open>(length rows, m)\<close>). These are the
    two shapes the docstrings of the source describe. The arguments are numpy arrays, as
    the docstrings say; Python lists, on which \<^verbatim>\<open>+\<close> concatenates, are not modelled.
  \<^item> A finite float64 is a \<open>real\<close>: rounding and overflow are not modelled, so every
    equation below is one of exact real arithmetic. The non-finite results of
    \<^verbatim>\<open>np.log\<close> are kept (type \<open>float64\<close>), because the estimator produces them.
  \<^item> An exception is a value: \<open>Inl\<close> of an \<open>error\<close>. numpy's warnings do not change
    the control flow or the value returned under numpy's default settings and are not
    modelled.
  \<^item> The integrator and the random source are collaborators of the source: the first is a
    parameter, a function of its arguments; the second is a state that \<^verbatim>\<open>calc_rate\<close>
    takes and returns.
  \<^item> The refiner is embedded twice: on values (\<open>double_increments\<close>), for what it
    computes, and on a store of buffers and views (\<open>double_increments_st\<close>), for what it
    writes and what its results share with its arguments. Lemma
    \<open>double_increments_st_refines\<close> relates the two.
\<close>

subsection \<open>Exceptions\<close>

text \<open>
  \<open>BroadcastError\<close> is numpy's \<^verbatim>\<open>ValueError: operands could not be broadcast together\<close>,
  \<open>NegativeDimensions\<close> is \<^verbatim>\<open>ValueError: negative dimensions are not allowed\<close>,
  \<open>UnpackError\<close> is Python's \<^verbatim>\<open>ValueError: not enough values to unpack\<close> and
  \<open>IndexError\<close> is the error of \<^verbatim>\<open>a[-1]\<close> on an array with no element.
\<close>

datatype error = BroadcastError | NegativeDimensions | UnpackError | IndexError

subsection \<open>Arrays, slices and broadcasting\<close>

datatype ndarray = A1 "real list" | A2 nat "real list list"

text \<open>A two-dimensional array is rectangular: every row has the declared width.\<close>

fun wf_array :: "ndarray \<Rightarrow> bool" where
  "wf_array (A1 xs) = True"
| "wf_array (A2 m rows) = list_all (\<lambda>r. length r = m) rows"

text \<open>\<^verbatim>\<open>len(a)\<close>: the size of the first axis.\<close>

fun len0 :: "ndarray \<Rightarrow> nat" where
  "len0 (A1 xs) = length xs"
| "len0 (A2 m rows) = length rows"

text \<open>A one-dimensional array of \<open>n\<close> components; an optional one.\<close>

fun vec_len :: "nat \<Rightarrow> ndarray \<Rightarrow> bool" where
  "vec_len n (A1 xs) = (length xs = n)"
| "vec_len n (A2 m rows) = False"

fun opt_vec_len :: "nat \<Rightarrow> ndarray option \<Rightarrow> bool" where
  "opt_vec_len n None = True"
| "opt_vec_len n (Some a) = vec_len n a"

text \<open>The components of a one-dimensional array.\<close>

fun vec :: "ndarray \<Rightarrow> real list" where
  "vec (A1 xs) = xs"
| "vec (A2 m rows) = []"

text \<open>
  \<^verbatim>\<open>xs[start::step]\<close> for \<open>start \<ge> 0\<close> and \<open>step \<ge> 1\<close>: the elements at
  \<open>start, start + step, ...\<close> below \<open>length xs\<close>. The number of elements is Python's
  \<open>max 0 (ceiling ((n - start) / step))\<close>.
\<close>

definition slice_len :: "nat \<Rightarrow> nat \<Rightarrow> nat \<Rightarrow> nat" where
  "slice_len start step n = (n - start + step - 1) div step"

definition py_slice :: "nat \<Rightarrow> nat \<Rightarrow> 'a list \<Rightarrow> 'a list" where
  "py_slice start step xs =
     map (\<lambda>k. xs ! (start + k * step)) [0..<slice_len start step (length xs)]"

text \<open>On an array the slice \<^verbatim>\<open>a[start::step]\<close> acts on the first axis only.\<close>

fun take_every :: "nat \<Rightarrow> nat \<Rightarrow> ndarray \<Rightarrow> ndarray" where
  "take_every start step (A1 xs) = A1 (py_slice start step xs)"
| "take_every start step (A2 m rows) = A2 m (py_slice start step rows)"

text \<open>
  numpy's broadcasting rule on one axis: two sizes are compatible when they are equal or
  one of them is \<open>1\<close>; the operand of size \<open>1\<close> is repeated.
\<close>

definition broadcast :: "('a \<Rightarrow> 'a \<Rightarrow> 'a) \<Rightarrow> 'a list \<Rightarrow> 'a list \<Rightarrow> 'a list option" where
  "broadcast f xs ys =
     (if length xs = length ys then Some (map2 f xs ys)
      else if length xs = 1 then Some (map (f (hd xs)) ys)
      else if length ys = 1 then Some (map (\<lambda>x. f x (hd ys)) xs)
      else None)"

text \<open>Two rows whose widths are already known to be compatible.\<close>

definition broadcast_row :: "(real \<Rightarrow> real \<Rightarrow> real) \<Rightarrow> real list \<Rightarrow> real list \<Rightarrow> real list" where
  "broadcast_row f r s =
     (if length r = length s then map2 f r s
      else if length r = 1 then map (f (hd r)) s
      else map (\<lambda>x. f x (hd s)) r)"

text \<open>
  An elementwise binary operation of numpy (\<^verbatim>\<open>+\<close>, \<^verbatim>\<open>-\<close>). A one-dimensional operand
  meeting a two-dimensional one is a single row.
\<close>

definition elementwise2 ::
  "(real \<Rightarrow> real \<Rightarrow> real) \<Rightarrow> nat \<Rightarrow> real list list \<Rightarrow> nat \<Rightarrow> real list list \<Rightarrow> error + ndarray" where
  "elementwise2 f m xs m' ys =
     (if m = m' \<or> m = 1 \<or> m' = 1 then
        (case broadcast (broadcast_row f) xs ys of
           None \<Rightarrow> Inl BroadcastError
         | Some zs \<Rightarrow> Inr (A2 (if m = 1 then m' else m) zs))
      else Inl BroadcastError)"

fun elementwise :: "(real \<Rightarrow> real \<Rightarrow> real) \<Rightarrow> ndarray \<Rightarrow> ndarray \<Rightarrow> error + ndarray" where
  "elementwise f (A1 xs) (A1 ys) =
     (case broadcast f xs ys of None \<Rightarrow> Inl BroadcastError | Some zs \<Rightarrow> Inr (A1 zs))"
| "elementwise f (A2 m xs) (A2 m' ys) = elementwise2 f m xs m' ys"
| "elementwise f (A1 xs) (A2 m' ys) = elementwise2 f (length xs) [xs] m' ys"
| "elementwise f (A2 m xs) (A1 ys) = elementwise2 f m xs (length ys) [ys]"

text \<open>An operation between an array and a scalar (\<^verbatim>\<open>a / c\<close>, \<^verbatim>\<open>c * a\<close>) never fails.\<close>

fun scalar_op :: "(real \<Rightarrow> real) \<Rightarrow> ndarray \<Rightarrow> ndarray" where
  "scalar_op g (A1 xs) = A1 (map g xs)"
| "scalar_op g (A2 m rows) = A2 m (map (map g) rows)"

subsection \<open>The increment refiner\<close>

text \<open>
  The body of \<^verbatim>\<open>double_increments(times, U1s, U2s=None)\<close>:
  \<^verbatim>\<open>
    new_times = times[::2]
    even_U1s = U1s[::2]
    odd_U1s = U1s[1::2]
    new_U1s = (even_U1s + odd_U1s)/np.sqrt(2)

    if U2s is None:
        return new_times, new_U1s
    else:
        even_U2s = U2s[::2]
        odd_U2s = U2s[1::2]
        new_U2s = (np.sqrt(3)*(even_U1s - odd_U1s) +
                   even_U2s + odd_U2s)/(2*np.sqrt(2))
        return new_times, new_U1s, new_U2s
  \<close>
  It returns a tuple of two arrays when \<^verbatim>\<open>U2s\<close> is \<^verbatim>\<open>None\<close> and of three otherwise.
  The parameter \<^verbatim>\<open>times\<close> of the source is written \<open>tms\<close> throughout (\<open>times\<close> is
  HOL's multiplication).
\<close>

datatype refined = Ret2 ndarray ndarray | Ret3 ndarray ndarray ndarray

fun ret_times :: "refined \<Rightarrow> ndarray" where
  "ret_times (Ret2 t u) = t"
| "ret_times (Ret3 t u v) = t"

fun ret_U1s :: "refined \<Rightarrow> ndarray" where
  "ret_U1s (Ret2 t u) = u"
| "ret_U1s (Ret3 t u v) = u"

fun ret_U2s :: "refined \<Rightarrow> ndarray option" where
  "ret_U2s (Ret2 t u) = None"
| "ret_U2s (Ret3 t u v) = Some v"

definition double_increments :: "ndarray \<Rightarrow> ndarray \<Rightarrow> ndarray option \<Rightarrow> error + refined" where
  "double_increments tms U1s U2s =
     (let new_times = take_every 0 2 tms;
          even_U1s = take_every 0 2 U1s;
          odd_U1s = take_every 1 2 U1s
      in (case elementwise (+) even_U1s odd_U1s of
            Inl e \<Rightarrow> Inl e
          | Inr s \<Rightarrow>
              (let new_U1s = scalar_op (\<lambda>x. x / sqrt 2) s
               in (case U2s of
                     None \<Rightarrow> Inr (Ret2 new_times new_U1s)
                   | Some U2 \<Rightarrow>
                       (let even_U2s = take_every 0 2 U2;
                            odd_U2s = take_every 1 2 U2
                        in (case elementwise (-) even_U1s odd_U1s of
                              Inl e \<Rightarrow> Inl e
                            | Inr d \<Rightarrow>
                           (case elementwise (+) (scalar_op (\<lambda>x. sqrt 3 * x) d) even_U2s of
                              Inl e \<Rightarrow> Inl e
                            | Inr t \<Rightarrow>
                           (case elementwise (+) t odd_U2s of
                              Inl e \<Rightarrow> Inl e
                            | Inr u \<Rightarrow>
                                Inr (Ret3 new_times new_U1s
                                       (scalar_op (\<lambda>x. x / (2 * sqrt 2)) u))))))))))"

subsection \<open>The L1 norm\<close>

text \<open>\<^verbatim>\<open>np.sum(np.abs(vec))\<close>: the sum runs over every scalar component.\<close>

fun l1_norm :: "ndarray \<Rightarrow> real" where
  "l1_norm (A1 xs) = sum_list (map abs xs)"
| "l1_norm (A2 m rows) = sum_list (map (\<lambda>r. sum_list (map abs r)) rows)"

subsection \<open>Floats with the non-finite values\<close>

datatype float64 = Finite real | PosInf | NegInf | NaN

text \<open>
  \<^verbatim>\<open>np.log\<close> raises nothing: the logarithm of zero is \<open>-inf\<close> and that of a negative
  number is \<open>nan\<close> (each under a \<^verbatim>\<open>RuntimeWarning\<close>).
\<close>

fun np_log :: "float64 \<Rightarrow> float64" where
  "np_log (Finite x) = (if 0 < x then Finite (ln x) else if x = 0 then NegInf else NaN)"
| "np_log PosInf = PosInf"
| "np_log NegInf = NaN"
| "np_log NaN = NaN"

fun fl_sub :: "float64 \<Rightarrow> float64 \<Rightarrow> float64" where
  "fl_sub NaN y = NaN"
| "fl_sub x NaN = NaN"
| "fl_sub (Finite a) (Finite b) = Finite (a - b)"
| "fl_sub (Finite a) PosInf = NegInf"
| "fl_sub (Finite a) NegInf = PosInf"
| "fl_sub PosInf PosInf = NaN"
| "fl_sub PosInf y = PosInf"
| "fl_sub NegInf NegInf = NaN"
| "fl_sub NegInf y = NegInf"

text \<open>Division; the zero divisor is taken as positive zero (signed zeros are not modelled).\<close>

fun fl_div :: "float64 \<Rightarrow> float64 \<Rightarrow> float64" where
  "fl_div NaN y = NaN"
| "fl_div x NaN = NaN"
| "fl_div (Finite a) (Finite b) =
     (if b = 0 then (if a = 0 then NaN else if 0 < a then PosInf else NegInf)
      else Finite (a / b))"
| "fl_div (Finite a) y = Finite 0"
| "fl_div PosInf (Finite b) = (if 0 \<le> b then PosInf else NegInf)"
| "fl_div NegInf (Finite b) = (if 0 \<le> b then NegInf else PosInf)"
| "fl_div x y = NaN"

subsection \<open>The random source\<close>

text \<open>
  The global generator of numpy: the samples it is still to deliver and how many of them
  have been consumed. \<^verbatim>\<open>np.random.randn(n)\<close> delivers the next \<open>n\<close> samples as a
  one-dimensional array and refuses a negative \<open>n\<close>.
\<close>

record rng =
  samples :: "nat \<Rightarrow> real"
  consumed :: nat

definition randn :: "int \<Rightarrow> rng \<Rightarrow> (error + ndarray) \<times> rng" where
  "randn n g =
     (if n < 0 then (Inl NegativeDimensions, g)
      else (Inr (A1 (map (samples g) [consumed g..<consumed g + nat n])),
            g\<lparr>consumed := consumed g + nat n\<rparr>))"

subsection \<open>The rate estimator\<close>

text \<open>
  The integrator is a collaborator: \<open>integrate rho_0 tms U1s U2s\<close> stands for
  \<^verbatim>\<open>integrator.integrate(rho_0, times, U1s, U2s).vec_soln\<close>, the sequence of states, or
  the exception \<open>x\<close> it raised. Python lets a caller pass \<^verbatim>\<open>None\<close> for either
  increment argument, so these two arguments are optional arrays.
\<close>

type_synonym ('rho, 'x) integrator =
  "'rho \<Rightarrow> ndarray \<Rightarrow> ndarray option \<Rightarrow> ndarray option \<Rightarrow> 'x + ndarray list"

datatype 'x failure = Raised error | IntegratorRaised 'x

text \<open>\<^verbatim>\<open>rhos[-1]\<close>.\<close>

definition last_state :: "ndarray list \<Rightarrow> error + ndarray" where
  "last_state rhos = (if rhos = [] then Inl IndexError else Inr (last rhos))"

text \<open>\<^verbatim>\<open>l1_norm(a[-1] - b[-1])\<close>, evaluated left to right.\<close>

definition final_distance :: "ndarray list \<Rightarrow> ndarray list \<Rightarrow> error + real" where
  "final_distance a b =
     (case last_state a of
        Inl e \<Rightarrow> Inl e
      | Inr x \<Rightarrow>
          (case last_state b of
             Inl e \<Rightarrow> Inl e
           | Inr y \<Rightarrow>
               (case elementwise (-) x y of
                  Inl e \<Rightarrow> Inl e
                | Inr d \<Rightarrow> Inr (l1_norm d))))"

text \<open>
  The body of \<^verbatim>\<open>calc_rate(integrator, rho_0, times, U1s=None, U2s=None)\<close>:
  \<^verbatim>\<open>
    increments = len(times) - 1
    if U1s is None:
        U1s = np.random.randn(increments)
    if U2s is None:
        U2s = np.random.randn(increments)

    times_2, U1s_2, U2s_2 = double_increments(times, U1s, U2s)
    times_4, U1s_4, U2s_4 = double_increments(times_2, U1s_2, U2s_2)

    rhos = integrator.integrate(rho_0, times, U1s, U2s).vec_soln
    rhos_2 = integrator.integrate(rho_0, times_2, U1s_2, U2s_2).vec_soln
    rhos_4 = integrator.integrate(rho_0, times_4, U1s_4, U2s_4).vec_soln
    rate = (np.log(l1_norm(rhos_4[-1] - rhos_2[-1])) -
            np.log(l1_norm(rhos_2[-1] - rhos[-1])))/np.log(2)

    return rate
  \<close>
  \<open>calc_rate_body\<close> is the part after the two defaults, where \<^verbatim>\<open>U1s\<close> and \<^verbatim>\<open>U2s\<close> are
  arrays. Unpacking a tuple of two into three names raises.
\<close>

definition calc_rate_body ::
  "('rho, 'x) integrator \<Rightarrow> 'rho \<Rightarrow> ndarray \<Rightarrow> ndarray \<Rightarrow> ndarray \<Rightarrow> 'x failure + float64" where
  "calc_rate_body integrate rho_0 tms U1s U2s =
     (case double_increments tms U1s (Some U2s) of
        Inl e \<Rightarrow> Inl (Raised e)
      | Inr (Ret2 t u) \<Rightarrow> Inl (Raised UnpackError)
      | Inr (Ret3 times_2 U1s_2 U2s_2) \<Rightarrow>
     (case double_increments times_2 U1s_2 (Some U2s_2) of
        Inl e \<Rightarrow> Inl (Raised e)
      | Inr (Ret2 t u) \<Rightarrow> Inl (Raised UnpackError)
      | Inr (Ret3 times_4 U1s_4 U2s_4) \<Rightarrow>
     (case integrate rho_0 tms (Some U1s) (Some U2s) of
        Inl x \<Rightarrow> Inl (IntegratorRaised x)
      | Inr rhos \<Rightarrow>
     (case integrate rho_0 times_2 (Some U1s_2) (Some U2s_2) of
        Inl x \<Rightarrow> Inl (IntegratorRaised x)
      | Inr rhos_2 \<Rightarrow>
     (case integrate rho_0 times_4 (Some U1s_4) (Some U2s_4) of
        Inl x \<Rightarrow> Inl (IntegratorRaised x)
      | Inr rhos_4 \<Rightarrow>
     (case final_distance rhos_4 rhos_2 of
        Inl e \<Rightarrow> Inl (Raised e)
      | Inr d1 \<Rightarrow>
     (case final_distance rhos_2 rhos of
        Inl e \<Rightarrow> Inl (Raised e)
      | Inr d2 \<Rightarrow>
          Inr (fl_div (fl_sub (np_log (Finite d1)) (np_log (Finite d2)))
                 (np_log (Finite 2))))))))))"

text \<open>
  The two defaults: an omitted \<^verbatim>\<open>U1s\<close> or \<^verbatim>\<open>U2s\<close> is drawn from the random source,
  \<^verbatim>\<open>U1s\<close> first.
\<close>

definition draw_if_none :: "int \<Rightarrow> ndarray option \<Rightarrow> rng \<Rightarrow> (error + ndarray) \<times> rng" where
  "draw_if_none n U g = (case U of None \<Rightarrow> randn n g | Some u \<Rightarrow> (Inr u, g))"

definition calc_rate ::
  "('rho, 'x) integrator \<Rightarrow> 'rho \<Rightarrow> ndarray \<Rightarrow> ndarray option \<Rightarrow> ndarray option \<Rightarrow> rng
     \<Rightarrow> ('x failure + float64) \<times> rng" where
  "calc_rate integrate rho_0 tms U1s U2s g =
     (let increments = int (len0 tms) - 1
      in case draw_if_none increments U1s g of
           (Inl e, g1) \<Rightarrow> (Inl (Raised e), g1)
         | (Inr U1s', g1) \<Rightarrow>
             (case draw_if_none increments U2s g1 of
                (Inl e, g2) \<Rightarrow> (Inl (Raised e), g2)
              | (Inr U2s', g2) \<Rightarrow> (calc_rate_body integrate rho_0 tms U1s' U2s', g2)))"

subsection \<open>The refiner on a store: views and buffers\<close>

text \<open>
  Whether a result shares memory with an argument is not visible on values. Here an array
  is a view on a buffer of the store, as in numpy: the address of the buffer, the offset of
  the first element and, for each axis, the number of elements and the stride (counted
  in elements). A basic slice makes a new view on the same buffer; an arithmetic
  operation allocates a new buffer for its result. Views have one or two axes.

  The store is the list of the buffers allocated so far and the address of a buffer is its
  position in the list, so a new buffer never takes the place of an old one; freeing
  (reference counting, the reuse of temporaries) is not modelled. A buffer holds its
  components in row-major order.
\<close>

type_synonym heap = "real list list"

record view =
  base :: nat
  offset :: nat
  dims :: "(nat \<times> nat) list"

text \<open>The positions of the buffer that a view reads, in row-major order.\<close>

definition cells :: "view \<Rightarrow> nat list" where
  "cells v =
     (case dims v of
        [(c, s)] \<Rightarrow> map (\<lambda>i. offset v + i * s) [0..<c]
      | [(c0, s0), (c1, s1)] \<Rightarrow>
          concat (map (\<lambda>i. map (\<lambda>j. offset v + i * s0 + j * s1) [0..<c1]) [0..<c0])
      | _ \<Rightarrow> [])"

text \<open>\<^verbatim>\<open>np.shares_memory\<close>: the same buffer and a common position.\<close>

definition shares_memory :: "view \<Rightarrow> view \<Rightarrow> bool" where
  "shares_memory v w = (base v = base w \<and> list_ex (\<lambda>a. a \<in> set (cells w)) (cells v))"

definition read_view :: "heap \<Rightarrow> view \<Rightarrow> ndarray" where
  "read_view h v =
     (case dims v of
        [(c, s)] \<Rightarrow> A1 (map (\<lambda>i. h ! base v ! (offset v + i * s)) [0..<c])
      | [(c0, s0), (c1, s1)] \<Rightarrow>
          A2 c1 (map (\<lambda>i. map (\<lambda>j. h ! base v ! (offset v + i * s0 + j * s1)) [0..<c1])
                   [0..<c0])
      | _ \<Rightarrow> A1 [])"

text \<open>\<^verbatim>\<open>v[start::step]\<close>: a view on the buffer of \<open>v\<close>, no buffer is read or written.\<close>

definition slice_view :: "nat \<Rightarrow> nat \<Rightarrow> view \<Rightarrow> view" where
  "slice_view start step v =
     (case dims v of
        [] \<Rightarrow> v
      | (c, s) # rest \<Rightarrow>
          v\<lparr>offset := offset v + min start c * s,
            dims := (slice_len start step c, s * step) # rest\<rparr>)"

text \<open>A new array: a new buffer at the end of the store, holding the components.\<close>

fun flatten :: "ndarray \<Rightarrow> real list" where
  "flatten (A1 xs) = xs"
| "flatten (A2 m rows) = concat rows"

fun contiguous :: "nat \<Rightarrow> ndarray \<Rightarrow> view" where
  "contiguous b (A1 xs) = \<lparr>base = b, offset = 0, dims = [(length xs, 1)]\<rparr>"
| "contiguous b (A2 m rows) = \<lparr>base = b, offset = 0, dims = [(length rows, m), (m, 1)]\<rparr>"

definition alloc :: "ndarray \<Rightarrow> heap \<Rightarrow> view \<times> heap" where
  "alloc a h = (contiguous (length h) a, h @ [flatten a])"

definition elementwise_st ::
  "(real \<Rightarrow> real \<Rightarrow> real) \<Rightarrow> view \<Rightarrow> view \<Rightarrow> heap \<Rightarrow> (error + view) \<times> heap" where
  "elementwise_st f v w h =
     (case elementwise f (read_view h v) (read_view h w) of
        Inl e \<Rightarrow> (Inl e, h)
      | Inr a \<Rightarrow> (case alloc a h of (r, h') \<Rightarrow> (Inr r, h')))"

definition scalar_op_st :: "(real \<Rightarrow> real) \<Rightarrow> view \<Rightarrow> heap \<Rightarrow> view \<times> heap" where
  "scalar_op_st g v h = alloc (scalar_op g (read_view h v)) h"

datatype refined_views = VRet2 view view | VRet3 view view view

fun vret_times :: "refined_views \<Rightarrow> view" where
  "vret_times (VRet2 t u) = t"
| "vret_times (VRet3 t u v) = t"

fun vret_U1s :: "refined_views \<Rightarrow> view" where
  "vret_U1s (VRet2 t u) = u"
| "vret_U1s (VRet3 t u v) = u"

fun vret_U2s :: "refined_views \<Rightarrow> view option" where
  "vret_U2s (VRet2 t u) = None"
| "vret_U2s (VRet3 t u v) = Some v"

text \<open>The values that a returned tuple of views stands for.\<close>

fun read_refined :: "heap \<Rightarrow> refined_views \<Rightarrow> refined" where
  "read_refined h (VRet2 t u) = Ret2 (read_view h t) (read_view h u)"
| "read_refined h (VRet3 t u v) = Ret3 (read_view h t) (read_view h u) (read_view h v)"

text \<open>\<^verbatim>\<open>double_increments\<close> again, statement by statement, on views and a store.\<close>

definition double_increments_st ::
  "view \<Rightarrow> view \<Rightarrow> view option \<Rightarrow> heap \<Rightarrow> (error + refined_views) \<times> heap" where
  "double_increments_st tms U1s U2s h =
     (let new_times = slice_view 0 2 tms;
          even_U1s = slice_view 0 2 U1s;
          odd_U1s = slice_view 1 2 U1s
      in (case elementwise_st (+) even_U1s odd_U1s h of
            (Inl e, h1) \<Rightarrow> (Inl e, h1)
          | (Inr s, h1) \<Rightarrow>
         (case scalar_op_st (\<lambda>x. x / sqrt 2) s h1 of (new_U1s, h2) \<Rightarrow>
         (case U2s of
            None \<Rightarrow> (Inr (VRet2 new_times new_U1s), h2)
          | Some U2 \<Rightarrow>
              (let even_U2s = slice_view 0 2 U2;
                   odd_U2s = slice_view 1 2 U2
               in (case elementwise_st (-) even_U1s odd_U1s h2 of
                     (Inl e, h3) \<Rightarrow> (Inl e, h3)
                   | (Inr d, h3) \<Rightarrow>
                  (case scalar_op_st (\<lambda>x. sqrt 3 * x) d h3 of (sd, h4) \<Rightarrow>
                  (case elementwise_st (+) sd even_U2s h4 of
                     (Inl e, h5) \<Rightarrow> (Inl e, h5)
                   | (Inr t, h5) \<Rightarrow>
                  (case elementwise_st (+) t odd_U2s h5 of
                     (Inl e, h6) \<Rightarrow> (Inl e, h6)
                   | (Inr u, h6) \<Rightarrow>
                  (case scalar_op_st (\<lambda>x. x / (2 * sqrt 2)) u h6 of (new_U2s, h7) \<Rightarrow>
                     (Inr (VRet3 new_times new_U1s new_U2s), h7)))))))))))"

section \<open>Slices and the refiner on one-dimensional arrays\<close>

lemma slice_len_evens: "slice_len 0 2 n = (n + 1) div 2"
  by (simp add: slice_len_def)

lemma slice_len_even_halves: "even n \<Longrightarrow> slice_len 0 2 n = n div 2"
  by (auto simp: slice_len_def elim!: evenE)

lemma slice_len_odds: "slice_len (Suc 0) 2 n = n div 2"
  by (cases n) (simp_all add: slice_len_def)

lemma length_py_slice: "length (py_slice start step xs) = slice_len start step (length xs)"
  by (simp add: py_slice_def)

lemma nth_py_slice:
  "k < slice_len start step (length xs) \<Longrightarrow> py_slice start step xs ! k = xs ! (start + k * step)"
  by (simp add: py_slice_def)

lemma py_slice_evens:
  "even (length xs) \<Longrightarrow> py_slice 0 2 xs = map (\<lambda>k. xs ! (2 * k)) [0..<length xs div 2]"
  by (simp add: py_slice_def slice_len_even_halves mult.commute)

lemma py_slice_odds:
  "py_slice (Suc 0) 2 xs = map (\<lambda>k. xs ! (2 * k + 1)) [0..<length xs div 2]"
  by (simp add: py_slice_def slice_len_odds mult.commute)

lemma map2_map_same: "map2 f (map g xs) (map h xs) = map (\<lambda>x. f (g x) (h x)) xs"
  by (induction xs) simp_all

lemma broadcast_same_length:
  "length xs = length ys \<Longrightarrow> broadcast f xs ys = Some (map2 f xs ys)"
  by (simp add: broadcast_def)

text \<open>On an even number of components the two halves pair up index by index.\<close>

lemma elementwise_halves:
  assumes "even (length xs)"
  shows "elementwise f (take_every 0 2 (A1 xs)) (take_every (Suc 0) 2 (A1 xs))
         = Inr (A1 (map (\<lambda>k. f (xs ! (2 * k)) (xs ! (2 * k + 1))) [0..<length xs div 2]))"
  by (simp add: py_slice_evens [OF assms] py_slice_odds broadcast_same_length map2_map_same)

lemma double_increments_vec_None:
  assumes "even (length U1)"
  shows "double_increments tms (A1 U1) None =
         Inr (Ret2 (take_every 0 2 tms)
                (A1 (map (\<lambda>k. (U1 ! (2 * k) + U1 ! (2 * k + 1)) / sqrt 2)
                       [0..<length U1 div 2])))"
  by (simp add: double_increments_def Let_def elementwise_halves [OF assms] o_def
      del: take_every.simps)

lemma double_increments_vec_Some:
  assumes "even (length U1)" "length U2 = length U1"
  shows "double_increments tms (A1 U1) (Some (A1 U2)) =
         Inr (Ret3 (take_every 0 2 tms)
                (A1 (map (\<lambda>k. (U1 ! (2 * k) + U1 ! (2 * k + 1)) / sqrt 2)
                       [0..<length U1 div 2]))
                (A1 (map (\<lambda>k. (sqrt 3 * (U1 ! (2 * k) - U1 ! (2 * k + 1))
                                 + U2 ! (2 * k) + U2 ! (2 * k + 1)) / (2 * sqrt 2))
                       [0..<length U1 div 2])))"
proof -
  have ev2: "even (length U2)" using assms by simp
  have p0: "take_every 0 2 (A1 U2) = A1 (map (\<lambda>k. U2 ! (2 * k)) [0..<length U1 div 2])"
    using py_slice_evens [OF ev2] assms(2) by simp
  have p1: "take_every (Suc 0) 2 (A1 U2) = A1 (map (\<lambda>k. U2 ! (2 * k + 1)) [0..<length U1 div 2])"
    using py_slice_odds [of U2] assms(2) by simp
  show ?thesis
    by (simp add: double_increments_def Let_def elementwise_halves [OF assms(1)] p0 p1
        broadcast_same_length map2_map_same o_def del: take_every.simps)
qed

lemma slice_len_four: "slice_len 0 2 (slice_len 0 2 n) = slice_len 0 4 n"
  by (simp add: slice_len_def)

lemma py_slice_twice: "py_slice 0 2 (py_slice 0 2 xs) = py_slice 0 4 xs"
proof (rule nth_equalityI)
  show "length (py_slice 0 2 (py_slice 0 2 xs)) = length (py_slice 0 4 xs)"
    by (simp add: length_py_slice slice_len_four)
next
  fix k assume "k < length (py_slice 0 2 (py_slice 0 2 xs))"
  then have k: "k < slice_len 0 2 (slice_len 0 2 (length xs))"
    by (simp add: length_py_slice)
  then have k2: "k * 2 < slice_len 0 2 (length xs)"
    by (simp add: slice_len_def)
  have k4: "k < slice_len 0 4 (length xs)"
    using k by (simp add: slice_len_four)
  have "py_slice 0 2 (py_slice 0 2 xs) ! k = py_slice 0 2 xs ! (k * 2)"
    using k by (simp add: nth_py_slice length_py_slice)
  also have "\<dots> = xs ! (k * 2 * 2)"
    using k2 by (simp add: nth_py_slice)
  also have "\<dots> = py_slice 0 4 xs ! k"
    using k4 by (simp add: nth_py_slice mult.commute)
  finally show "py_slice 0 2 (py_slice 0 2 xs) ! k = py_slice 0 4 xs ! k" .
qed

lemma refine_vec:
  assumes "even n" and "vec_len n U1s" and "opt_vec_len n U2s"
  shows "\<exists>res. double_increments tms U1s U2s = Inr res
           \<and> ret_times res = take_every 0 2 tms
           \<and> vec_len (n div 2) (ret_U1s res)
           \<and> opt_vec_len (n div 2) (ret_U2s res)
           \<and> ((ret_U2s res = None) = (U2s = None))"
proof -
  obtain U1 where u1: "U1s = A1 U1" and l1: "length U1 = n"
    using assms(2) by (cases U1s) simp_all
  have ev: "even (length U1)" using assms(1) l1 by simp
  show ?thesis
  proof (cases U2s)
    case None
    show ?thesis
      unfolding None u1 double_increments_vec_None [OF ev] using l1 by simp
  next
    case (Some a)
    then obtain U2 where a: "a = A1 U2" and l: "length U2 = length U1"
      using assms(3) l1 by (cases a) simp_all
    show ?thesis
      unfolding Some a u1 double_increments_vec_Some [OF ev l] using l1 by simp
  qed
qed


lemma grid_evens:
  assumes "even n" and "length ts = n + 1"
  shows "length (py_slice 0 2 ts) = n div 2 + 1"
    and "\<forall>k \<le> n div 2. py_slice 0 2 ts ! k = ts ! (2 * k)"
proof -
  have l: "slice_len 0 2 (length ts) = n div 2 + 1"
    using assms by (simp add: slice_len_def)
  show "length (py_slice 0 2 ts) = n div 2 + 1"
    by (simp add: length_py_slice l)
  show "\<forall>k \<le> n div 2. py_slice 0 2 ts ! k = ts ! (2 * k)"
  proof (intro allI impI)
    fix k assume "k \<le> n div 2"
    then have "k < slice_len 0 2 (length ts)" using l by simp
    then show "py_slice 0 2 ts ! k = ts ! (2 * k)"
      by (simp add: nth_py_slice mult.commute)
  qed
qed

lemma grid_fourths:
  assumes "4 dvd n" and "length ts = n + 1"
  shows "length (py_slice 0 4 ts) = n div 4 + 1"
    and "\<forall>k \<le> n div 4. py_slice 0 4 ts ! k = ts ! (4 * k)"
proof -
  have l: "slice_len 0 4 (length ts) = n div 4 + 1"
    using assms by (simp add: slice_len_def)
  show "length (py_slice 0 4 ts) = n div 4 + 1"
    by (simp add: length_py_slice l)
  show "\<forall>k \<le> n div 4. py_slice 0 4 ts ! k = ts ! (4 * k)"
  proof (intro allI impI)
    fix k assume "k \<le> n div 4"
    then have "k < slice_len 0 4 (length ts)" using l by simp
    then show "py_slice 0 4 ts ! k = ts ! (4 * k)"
      by (simp add: nth_py_slice mult.commute)
  qed
qed


lemma double_increments_None_Ret2:
  "double_increments t u None = Inr res \<Longrightarrow> \<exists>new_times new_U1s. res = Ret2 new_times new_U1s"
  by (auto simp: double_increments_def Let_def split: sum.splits)

lemma double_increments_Some_Ret3:
  "double_increments t u (Some v) = Inr res \<Longrightarrow> \<exists>a b c. res = Ret3 a b c"
  by (auto simp: double_increments_def Let_def split: sum.splits)

lemma broadcast_mismatch:
  "length xs \<noteq> length ys \<Longrightarrow> length xs \<noteq> 1 \<Longrightarrow> length ys \<noteq> 1 \<Longrightarrow> broadcast f xs ys = None"
  by (simp add: broadcast_def)

lemma double_increments_odd_fails:
  assumes "odd n" and "5 \<le> n" and "length U1 = n"
  shows "double_increments tms (A1 U1) U2s = Inl BroadcastError"
proof -
  have a: "length (py_slice 0 2 U1) = (n + 1) div 2"
    by (simp add: length_py_slice slice_len_evens assms(3))
  have b: "length (py_slice (Suc 0) 2 U1) = n div 2"
    by (simp add: length_py_slice slice_len_odds assms(3))
  have "(n + 1) div 2 \<noteq> n div 2" "(n + 1) div 2 \<noteq> 1" "n div 2 \<noteq> 1"
    using assms(1,2) by presburger+
  then have "broadcast (+) (py_slice 0 2 U1) (py_slice (Suc 0) 2 U1) = None"
    using a b by (intro broadcast_mismatch) simp_all
  then show ?thesis
    by (simp add: double_increments_def Let_def)
qed

lemmas refine_eval = double_increments_def Let_def py_slice_def slice_len_def broadcast_def

lemma double_increments_one:
  assumes "length U1 = 1" and "opt_vec_len 1 U2s"
  shows "\<exists>res. double_increments tms (A1 U1) U2s = Inr res \<and> ret_U1s res = A1 []"
proof -
  obtain a where u: "U1 = [a]" using assms(1) by (cases U1) simp_all
  show ?thesis
  proof (cases U2s)
    case None
    then show ?thesis by (simp add: u refine_eval)
  next
    case (Some v)
    then obtain U2 where v: "v = A1 U2" and "length U2 = 1"
      using assms(2) by (cases v) simp_all
    then obtain c where u2: "U2 = [c]" by (cases U2) simp_all
    show ?thesis by (simp add: Some v u u2 refine_eval)
  qed
qed

lemma double_increments_three:
  assumes "length U1 = 3" and "opt_vec_len 3 U2s"
  shows "\<exists>res. double_increments tms (A1 U1) U2s = Inr res
           \<and> ret_U1s res = A1 [(U1 ! 0 + U1 ! 1) / sqrt 2, (U1 ! 2 + U1 ! 1) / sqrt 2]"
proof -
  obtain a b c where u: "U1 = [a, b, c]"
    using assms(1) by (auto simp: numeral_3_eq_3 length_Suc_conv)
  show ?thesis
  proof (cases U2s)
    case None
    then show ?thesis by (simp add: u refine_eval)
  next
    case (Some v)
    then obtain U2 where v: "v = A1 U2" and "length U2 = 3"
      using assms(2) by (cases v) simp_all
    then obtain d e f where u2: "U2 = [d, e, f]"
      by (auto simp: numeral_3_eq_3 length_Suc_conv)
    show ?thesis by (simp add: Some v u u2 refine_eval)
  qed
qed

lemma broadcast_row_same_length:
  "length r = length s \<Longrightarrow> broadcast_row f r s = map2 f r s"
  by (simp add: broadcast_row_def)

text \<open>
  On a two-dimensional array the slices select rows, so the refiner pairs row \<open>2i\<close> with
  row \<open>2i + 1\<close>: of \<open>N\<close> rows it returns \<open>N div 2\<close>, each of the full width.
\<close>

lemma double_increments_batch:
  assumes "even (length rows)"
  shows "double_increments tms (A2 m rows) None =
         Inr (Ret2 (take_every 0 2 tms)
                (A2 m (map (\<lambda>i. map (\<lambda>x. x / sqrt 2)
                                  (broadcast_row (+) (rows ! (2 * i)) (rows ! (2 * i + 1))))
                         [0..<length rows div 2])))"
  by (simp add: double_increments_def Let_def elementwise2_def py_slice_evens [OF assms]
      py_slice_odds broadcast_same_length map2_map_same o_def)

section \<open>The rate estimator: supporting facts\<close>

lemma calc_rate_supplied:
  "calc_rate integrate rho_0 tms (Some U1s) (Some U2s) g
     = (calc_rate_body integrate rho_0 tms U1s U2s, g)"
  by (simp add: calc_rate_def draw_if_none_def)





lemma elementwise_error: "elementwise f a b = Inl e \<Longrightarrow> e = BroadcastError"
  by (cases a; cases b) (auto simp: elementwise2_def split: option.splits if_splits)

lemma double_increments_error: "double_increments t u v = Inl e \<Longrightarrow> e = BroadcastError"
  by (auto simp: double_increments_def Let_def split: sum.splits option.splits
      dest: elementwise_error)

lemma final_distance_error: "final_distance a b = Inl e \<Longrightarrow> e = IndexError \<or> e = BroadcastError"
  by (auto simp: final_distance_def last_state_def split: sum.splits if_splits
      dest: elementwise_error)

lemma double_increments_Some_not_Ret2: "double_increments t u (Some v) \<noteq> Inr (Ret2 a b)"
  using double_increments_Some_Ret3 [of t u v "Ret2 a b"] by auto

lemma calc_rate_body_no_unpack:
  "calc_rate_body integrate rho_0 tms U1s U2s \<noteq> Inl (Raised UnpackError)"
  by (auto simp: calc_rate_body_def double_increments_Some_not_Ret2
      split: sum.splits refined.splits
      dest: double_increments_error final_distance_error)

lemma calc_rate_body_cong:
  assumes "\<forall>r t u v. integrate' r t u (Some v) = integrate r t u (Some v)"
  shows "calc_rate_body integrate' rho_0 tms U1s U2s = calc_rate_body integrate rho_0 tms U1s U2s"
proof -
  have eq: "\<And>r t u v. integrate' r t u (Some v) = integrate r t u (Some v)"
    using assms by simp
  show ?thesis
    unfolding calc_rate_body_def eq ..
qed





lemma calc_rate_no_unpack:
  "fst (calc_rate integrate rho_0 tms U1s U2s g) \<noteq> Inl (Raised UnpackError)"
proof -
  obtain r1 g1 where a: "draw_if_none (int (len0 tms) - 1) U1s g = (r1, g1)"
    by (cases "draw_if_none (int (len0 tms) - 1) U1s g")
  obtain r2 g2 where b: "draw_if_none (int (len0 tms) - 1) U2s g1 = (r2, g2)"
    by (cases "draw_if_none (int (len0 tms) - 1) U2s g1")
  have e1: "r1 \<noteq> Inl UnpackError"
    using a by (auto simp: draw_if_none_def randn_def split: option.splits if_splits)
  have e2: "r2 \<noteq> Inl UnpackError"
    using b by (auto simp: draw_if_none_def randn_def split: option.splits if_splits)
  show ?thesis
    using e1 e2
    by (cases r1; cases r2)
       (simp_all add: calc_rate_def Let_def a b calc_rate_body_no_unpack)
qed

section \<open>The refiner on the store: what is written and what is shared\<close>

lemma alloc_fresh:
  assumes "alloc a h = (v, h')"
  shows "h' = h @ [flatten a]" and "base v = length h"
  using assms by (cases a; auto simp: alloc_def)+

lemma elementwise_st_frame:
  assumes "elementwise_st f v w h = (r, h')"
  shows "prefix h h'" and "r = Inr x \<Longrightarrow> length h \<le> base x"
proof -
  show "prefix h h'"
    using assms
    by (auto simp: elementwise_st_def alloc_def split: sum.splits)
  show "r = Inr x \<Longrightarrow> length h \<le> base x"
    using assms
    by (auto simp: elementwise_st_def split: sum.splits prod.splits dest: alloc_fresh(2))
qed

lemma scalar_op_st_frame:
  assumes "scalar_op_st g v h = (x, h')"
  shows "prefix h h'" and "length h \<le> base x"
  using assms alloc_fresh [of "scalar_op g (read_view h v)" h x h']
  by (auto simp: scalar_op_st_def)

lemma base_slice_view: "base (slice_view start step v) = base v"
  by (simp add: slice_view_def split: list.splits prod.splits)

lemma prefix_chain:
  "prefix h h1 \<Longrightarrow> prefix h1 h2 \<Longrightarrow> prefix h h2"
  "prefix h h1 \<Longrightarrow> length h \<le> length h1"
  by (auto simp: prefix_def)

lemma double_increments_st_frame:
  assumes run: "double_increments_st tms U1s U2s h = (r, h')"
  shows "prefix h h'"
    and "r = Inr res \<Longrightarrow> vret_times res = slice_view 0 2 tms"
    and "r = Inr res \<Longrightarrow> length h \<le> base (vret_U1s res)"
    and "r = Inr res \<Longrightarrow> vret_U2s res = Some v \<Longrightarrow> length h \<le> base v"
    and "r = Inr res \<Longrightarrow> (vret_U2s res = None) = (U2s = None)"
proof -
  obtain r1 h1 where s1:
      "elementwise_st (+) (slice_view 0 2 U1s) (slice_view 1 2 U1s) h = (r1, h1)"
    by (cases "elementwise_st (+) (slice_view 0 2 U1s) (slice_view 1 2 U1s) h")
  note f1 = elementwise_st_frame [OF s1]
  have all: "prefix h h'
      \<and> (r = Inr res \<longrightarrow> vret_times res = slice_view 0 2 tms \<and> length h \<le> base (vret_U1s res)
            \<and> (vret_U2s res = Some v \<longrightarrow> length h \<le> base v)
            \<and> ((vret_U2s res = None) = (U2s = None)))"
  proof (cases r1)
    case (Inl e)
    then show ?thesis
      using run s1 f1(1) by (auto simp: double_increments_st_def Let_def)
  next
    case (Inr s)
    obtain nu h2 where s2: "scalar_op_st (\<lambda>x. x / sqrt 2) s h1 = (nu, h2)"
      by (cases "scalar_op_st (\<lambda>x. x / sqrt 2) s h1")
    note f2 = scalar_op_st_frame [OF s2]
    have p2: "prefix h h2"
      using f1(1) f2(1) by (rule prefix_chain(1))
    have b2: "length h \<le> base nu"
      using prefix_chain(2) [OF f1(1)] f2(2) by simp
    show ?thesis
    proof (cases U2s)
      case None
      then show ?thesis
        using run s1 s2 Inr p2 b2 by (auto simp: double_increments_st_def Let_def)
    next
      case (Some U2)
      obtain r3 h3 where s3:
          "elementwise_st (-) (slice_view 0 2 U1s) (slice_view 1 2 U1s) h2 = (r3, h3)"
        by (cases "elementwise_st (-) (slice_view 0 2 U1s) (slice_view 1 2 U1s) h2")
      note f3 = elementwise_st_frame [OF s3]
      have p3: "prefix h h3" using p2 f3(1) by (rule prefix_chain(1))
      show ?thesis
      proof (cases r3)
        case (Inl e)
        then show ?thesis
          using run s1 s2 s3 \<open>r1 = Inr s\<close> Some p3
          by (auto simp: double_increments_st_def Let_def)
      next
        case d: (Inr d)
        obtain sd h4 where s4: "scalar_op_st (\<lambda>x. sqrt 3 * x) d h3 = (sd, h4)"
          by (cases "scalar_op_st (\<lambda>x. sqrt 3 * x) d h3")
        note f4 = scalar_op_st_frame [OF s4]
        have p4: "prefix h h4" using p3 f4(1) by (rule prefix_chain(1))
        obtain r5 h5 where s5: "elementwise_st (+) sd (slice_view 0 2 U2) h4 = (r5, h5)"
          by (cases "elementwise_st (+) sd (slice_view 0 2 U2) h4")
        note f5 = elementwise_st_frame [OF s5]
        have p5: "prefix h h5" using p4 f5(1) by (rule prefix_chain(1))
        show ?thesis
        proof (cases r5)
          case (Inl e)
          then show ?thesis
            using run s1 s2 s3 s4 s5 \<open>r1 = Inr s\<close> d Some p5
            by (auto simp: double_increments_st_def Let_def)
        next
          case t: (Inr t)
          obtain r6 h6 where s6: "elementwise_st (+) t (slice_view 1 2 U2) h5 = (r6, h6)"
            by (cases "elementwise_st (+) t (slice_view 1 2 U2) h5")
          note f6 = elementwise_st_frame [OF s6]
          have p6: "prefix h h6" using p5 f6(1) by (rule prefix_chain(1))
          show ?thesis
          proof (cases r6)
            case (Inl e)
            then show ?thesis
              using run s1 s2 s3 s4 s5 s6 \<open>r1 = Inr s\<close> d t Some p6
              by (auto simp: double_increments_st_def Let_def)
          next
            case u: (Inr u)
            obtain nv h7 where s7: "scalar_op_st (\<lambda>x. x / (2 * sqrt 2)) u h6 = (nv, h7)"
              by (cases "scalar_op_st (\<lambda>x. x / (2 * sqrt 2)) u h6")
            note f7 = scalar_op_st_frame [OF s7]
            have p7: "prefix h h7" using p6 f7(1) by (rule prefix_chain(1))
            have b7: "length h \<le> base nv"
              using prefix_chain(2) [OF p6] f7(2) by simp
            show ?thesis
              using run s1 s2 s3 s4 s5 s6 s7 \<open>r1 = Inr s\<close> d t u Some p7 b2 b7
              by (auto simp: double_increments_st_def Let_def)
          qed
        qed
      qed
    qed
  qed
  show "prefix h h'" using all by simp
  show "r = Inr res \<Longrightarrow> vret_times res = slice_view 0 2 tms" using all by simp
  show "r = Inr res \<Longrightarrow> length h \<le> base (vret_U1s res)" using all by simp
  show "r = Inr res \<Longrightarrow> vret_U2s res = Some v \<Longrightarrow> length h \<le> base v" using all by simp
  show "r = Inr res \<Longrightarrow> (vret_U2s res = None) = (U2s = None)" using all by simp
qed

lemma read_view_prefix:
  assumes "prefix h h'" and "base v < length h"
  shows "read_view h' v = read_view h v"
proof -
  obtain new where "h' = h @ new"
    using assms(1) by (auto simp: prefix_def)
  then have eq: "h' ! base v = h ! base v"
    using assms(2) by (simp add: nth_append)
  show ?thesis
    unfolding read_view_def eq ..
qed

lemma view_shape:
  obtains (one) c s where "dims v = [(c, s)]"
  | (two) c0 s0 c1 s1 where "dims v = [(c0, s0), (c1, s1)]"
  | (other) "cells v = []"
proof (cases "dims v")
  case Nil
  then have "cells v = []" by (simp add: cells_def)
  then show ?thesis by (rule other)
next
  case (Cons p rest)
  obtain c s where p: "p = (c, s)" by (cases p)
  show ?thesis
  proof (cases rest)
    case Nil
    then show ?thesis using Cons p one by simp
  next
    case c2: (Cons q rest2)
    obtain c1 s1 where q: "q = (c1, s1)" by (cases q)
    show ?thesis
    proof (cases rest2)
      case Nil
      then show ?thesis using Cons c2 p q two by simp
    next
      case c3: (Cons a list)
      have "cells v = []"
        by (simp add: cells_def Cons c2 c3 p q)
      then show ?thesis by (rule other)
    qed
  qed
qed

lemma offset_slice_view0: "offset (slice_view 0 step v) = offset v"
  by (simp add: slice_view_def split: list.splits prod.splits)

lemma offset_in_cells:
  assumes "cells v \<noteq> []"
  shows "offset v \<in> set (cells v)"
proof (cases v rule: view_shape)
  case (one c s)
  then have "0 < c" using assms by (simp add: cells_def)
  then have "offset v + 0 * s \<in> (\<lambda>i. offset v + i * s) ` {0..<c}"
    by (intro imageI) simp
  then show ?thesis by (simp add: cells_def one)
next
  case (two c0 s0 c1 s1)
  have c: "0 < c0 \<and> 0 < c1"
    using assms by (auto simp: cells_def two)
  have "offset v + 0 * s0 + 0 * s1 \<in> (\<lambda>j. offset v + 0 * s0 + j * s1) ` {0..<c1}"
    using c by (intro imageI) simp
  then have "\<exists>i \<in> {0..<c0}. offset v \<in> (\<lambda>j. offset v + i * s0 + j * s1) ` {0..<c1}"
    using c by (intro bexI [of _ 0]) simp_all
  then show ?thesis by (simp add: cells_def two)
next
  case other
  then show ?thesis using assms by simp
qed

lemma cells_slice_nonempty:
  assumes "cells v \<noteq> []"
  shows "cells (slice_view 0 2 v) \<noteq> []"
proof (cases v rule: view_shape)
  case (one c s)
  then have "0 < c" using assms by (simp add: cells_def)
  then have "0 < slice_len 0 2 c" by (simp add: slice_len_def)
  then show ?thesis by (simp add: cells_def slice_view_def one)
next
  case (two c0 s0 c1 s1)
  have c: "0 < c0 \<and> 0 < c1"
    using assms by (auto simp: cells_def two)
  then have "0 < slice_len 0 2 c0" by (simp add: slice_len_def)
  then show ?thesis using c by (auto simp: cells_def slice_view_def two)
next
  case other
  then show ?thesis using assms by simp
qed

lemma slice_view_shares:
  assumes "cells v \<noteq> []"
  shows "shares_memory (slice_view 0 2 v) v"
proof -
  have "offset v \<in> set (cells (slice_view 0 2 v))"
    using offset_in_cells [OF cells_slice_nonempty [OF assms]]
    by (simp add: offset_slice_view0)
  moreover have "offset v \<in> set (cells v)"
    using assms by (rule offset_in_cells)
  ultimately show ?thesis
    by (auto simp: shares_memory_def base_slice_view list_ex_iff)
qed

lemma fresh_not_shared: "base x < n \<Longrightarrow> n \<le> base v \<Longrightarrow> \<not> shares_memory v x"
  by (simp add: shares_memory_def)

lemma slice_index_bound:
  assumes "k < slice_len st 2 c"
  shows "st + k * 2 < c" and "min st c = st"
  using assms by (simp_all add: slice_len_def)

lemma read_slice_1d:
  assumes "dims v = [(c, s)]"
  shows "read_view h (slice_view st 2 v) = take_every st 2 (read_view h v)"
proof -
  have "map (\<lambda>i. h ! base v ! (offset v + min st c * s + i * (s * 2))) [0..<slice_len st 2 c]
      = map (\<lambda>k. map (\<lambda>i. h ! base v ! (offset v + i * s)) [0..<c] ! (st + k * 2))
          [0..<slice_len st 2 c]"
  proof (rule map_cong [OF refl])
    fix k assume "k \<in> set [0..<slice_len st 2 c]"
    then have k: "k < slice_len st 2 c" by simp
    note b = slice_index_bound [OF k]
    have idx: "offset v + min st c * s + k * (s * 2) = offset v + (st + k * 2) * s"
      by (simp add: b(2) algebra_simps)
    show "h ! base v ! (offset v + min st c * s + k * (s * 2))
        = map (\<lambda>i. h ! base v ! (offset v + i * s)) [0..<c] ! (st + k * 2)"
      unfolding idx using b(1) by simp
  qed
  then show ?thesis
    by (simp add: read_view_def slice_view_def assms py_slice_def)
qed

lemma read_slice_2d:
  assumes "dims v = [(c0, s0), (c1, s1)]"
  shows "read_view h (slice_view st 2 v) = take_every st 2 (read_view h v)"
proof -
  let ?row = "\<lambda>i. map (\<lambda>j. h ! base v ! (offset v + i * s0 + j * s1)) [0..<c1]"
  have "map (\<lambda>i. map (\<lambda>j. h ! base v ! (offset v + min st c0 * s0 + i * (s0 * 2) + j * s1)) [0..<c1])
          [0..<slice_len st 2 c0]
      = map (\<lambda>k. map ?row [0..<c0] ! (st + k * 2)) [0..<slice_len st 2 c0]"
  proof (rule map_cong [OF refl])
    fix k assume "k \<in> set [0..<slice_len st 2 c0]"
    then have k: "k < slice_len st 2 c0" by simp
    note b = slice_index_bound [OF k]
    have idx: "offset v + min st c0 * s0 + k * (s0 * 2) = offset v + (st + k * 2) * s0"
      by (simp add: b(2) algebra_simps)
    show "map (\<lambda>j. h ! base v ! (offset v + min st c0 * s0 + k * (s0 * 2) + j * s1)) [0..<c1]
        = map ?row [0..<c0] ! (st + k * 2)"
      unfolding idx using b(1) by simp
  qed
  then show ?thesis
    by (simp add: read_view_def slice_view_def assms py_slice_def)
qed

lemma read_slice: "read_view h (slice_view st 2 v) = take_every st 2 (read_view h v)"
proof (cases "dims v")
  case Nil
  then show ?thesis
    by (simp add: read_view_def slice_view_def py_slice_def slice_len_def)
next
  case (Cons p rest)
  obtain c s where p: "p = (c, s)" by (cases p)
  show ?thesis
  proof (cases rest)
    case Nil
    then show ?thesis using Cons p by (simp add: read_slice_1d)
  next
    case c2: (Cons q rest2)
    obtain c1 s1 where q: "q = (c1, s1)" by (cases q)
    show ?thesis
    proof (cases rest2)
      case Nil
      then show ?thesis using Cons c2 p q by (simp add: read_slice_2d)
    next
      case (Cons a list)
      then show ?thesis
        using \<open>dims v = p # rest\<close> c2 p q
        by (simp add: read_view_def slice_view_def py_slice_def slice_len_def)
    qed
  qed
qed

lemma wf_read_view: "wf_array (read_view h v)"
  by (auto simp: read_view_def list_all_iff split: list.splits)

lemma wf_scalar_op: "wf_array a \<Longrightarrow> wf_array (scalar_op g a)"
  by (cases a) (auto simp: list_all_iff)


lemma concat_uniform_nth:
  assumes "list_all (\<lambda>r. length r = m) rows" and "i < length rows" and "j < m"
  shows "concat rows ! (i * m + j) = rows ! i ! j"
  using assms
proof (induction rows arbitrary: i)
  case Nil
  then show ?case by simp
next
  case (Cons r rows)
  show ?case
  proof (cases i)
    case 0
    then show ?thesis using Cons.prems by (simp add: nth_append)
  next
    case (Suc k)
    then have "concat (r # rows) ! (i * m + j) = concat rows ! (k * m + j)"
      using Cons.prems by (simp add: nth_append)
    also have "\<dots> = rows ! k ! j"
      using Cons.prems Suc by (intro Cons.IH) simp_all
    finally show ?thesis using Suc by simp
  qed
qed

lemma read_alloc:
  assumes "wf_array a"
  shows "read_view (h @ [flatten a]) (contiguous (length h) a) = a"
proof (cases a)
  case (A1 xs)
  then show ?thesis
    by (simp add: read_view_def map_nth)
next
  case (A2 m rows)
  have u: "list_all (\<lambda>r. length r = m) rows"
    using assms A2 by simp
  have "map (\<lambda>i. map (\<lambda>j. concat rows ! (i * m + j)) [0..<m]) [0..<length rows] = rows"
  proof (rule nth_equalityI)
    show "length (map (\<lambda>i. map (\<lambda>j. concat rows ! (i * m + j)) [0..<m]) [0..<length rows])
        = length rows" by simp
  next
    fix i assume "i < length (map (\<lambda>i. map (\<lambda>j. concat rows ! (i * m + j)) [0..<m]) [0..<length rows])"
    then have i: "i < length rows" by simp
    then have li: "length (rows ! i) = m"
      using u by (simp add: list_all_length)
    have "map (\<lambda>j. concat rows ! (i * m + j)) [0..<m] = rows ! i"
    proof (rule nth_equalityI)
      show "length (map (\<lambda>j. concat rows ! (i * m + j)) [0..<m]) = length (rows ! i)"
        by (simp add: li)
    next
      fix j assume "j < length (map (\<lambda>j. concat rows ! (i * m + j)) [0..<m])"
      then have j: "j < m" by simp
      then show "map (\<lambda>j. concat rows ! (i * m + j)) [0..<m] ! j = rows ! i ! j"
        by (simp add: concat_uniform_nth [OF u i j])
    qed
    then show "map (\<lambda>i. map (\<lambda>j. concat rows ! (i * m + j)) [0..<m]) [0..<length rows] ! i
        = rows ! i"
      using i by simp
  qed
  then show ?thesis
    by (simp add: A2 read_view_def)
qed


lemma broadcast_elems:
  assumes "broadcast g xs ys = Some zs" and "z \<in> set zs"
  shows "\<exists>x \<in> set xs. \<exists>y \<in> set ys. z = g x y"
proof -
  consider (eq) "length xs = length ys" "zs = map2 g xs ys"
    | (left) "length xs = 1" "zs = map (g (hd xs)) ys"
    | (right) "length ys = 1" "zs = map (\<lambda>x. g x (hd ys)) xs"
    using assms(1) by (auto simp: broadcast_def split: if_splits)
  then show ?thesis
  proof cases
    case eq
    then obtain x y where "(x, y) \<in> set (zip xs ys)" "z = g x y"
      using assms(2) by auto
    then show ?thesis
      by (auto dest: set_zip_leftD set_zip_rightD)
  next
    case left
    then have "hd xs \<in> set xs" by (cases xs) simp_all
    then show ?thesis using left assms(2) by auto
  next
    case right
    then have "hd ys \<in> set ys" by (cases ys) simp_all
    then show ?thesis using right assms(2) by auto
  qed
qed

lemma length_broadcast_row:
  assumes "length r = m" and "length s = m'" and "m = m' \<or> m = 1 \<or> m' = 1"
  shows "length (broadcast_row f r s) = (if m = 1 then m' else m)"
  using assms by (auto simp: broadcast_row_def)

lemma wf_elementwise2:
  assumes "list_all (\<lambda>r. length r = m) xs" and "list_all (\<lambda>r. length r = m') ys"
    and "elementwise2 f m xs m' ys = Inr c"
  shows "wf_array c"
proof -
  have compat: "m = m' \<or> m = 1 \<or> m' = 1"
    using assms(3) by (auto simp: elementwise2_def split: if_splits)
  then obtain zs where zs: "broadcast (broadcast_row f) xs ys = Some zs"
      and c: "c = A2 (if m = 1 then m' else m) zs"
    using assms(3) by (auto simp: elementwise2_def split: if_splits option.splits)
  have "length z = (if m = 1 then m' else m)" if zin: "z \<in> set zs" for z
  proof -
    obtain x y where "x \<in> set xs" "y \<in> set ys" and z: "z = broadcast_row f x y"
      using broadcast_elems [OF zs zin] by blast
    then have "length x = m" "length y = m'"
      using assms(1,2) by (auto simp: list_all_iff)
    then show ?thesis
      unfolding z using compat by (rule length_broadcast_row)
  qed
  then show ?thesis
    by (simp add: c list_all_iff)
qed

lemma wf_elementwise:
  assumes "wf_array a" and "wf_array b" and "elementwise f a b = Inr c"
  shows "wf_array c"
proof (cases a)
  case a1: (A1 xs)
  show ?thesis
  proof (cases b)
    case (A1 ys)
    then show ?thesis
      using assms(3) a1 by (auto split: option.splits)
  next
    case (A2 m' ys)
    then show ?thesis
      using assms a1 wf_elementwise2 [of "length xs" "[xs]" m' ys f c] by simp
  qed
next
  case a2: (A2 m xs)
  show ?thesis
  proof (cases b)
    case (A1 ys)
    then show ?thesis
      using assms a2 wf_elementwise2 [of m xs "length ys" "[ys]" f c] by simp
  next
    case (A2 m' ys)
    then show ?thesis
      using assms a2 wf_elementwise2 [of m xs m' ys f c] by simp
  qed
qed

lemma elementwise_st_raises:
  assumes "elementwise f (read_view h v) (read_view h w) = Inl e"
  shows "elementwise_st f v w h = (Inl e, h)"
  using assms by (simp add: elementwise_st_def)

lemma elementwise_st_returns:
  assumes "elementwise f (read_view h v) (read_view h w) = Inr c"
  shows "\<exists>x h'. elementwise_st f v w h = (Inr x, h') \<and> prefix h h' \<and> base x < length h'
           \<and> read_view h' x = c"
proof -
  have wf: "wf_array c"
    using wf_read_view wf_read_view assms by (rule wf_elementwise)
  have "elementwise_st f v w h = (Inr (contiguous (length h) c), h @ [flatten c])"
    using assms by (simp add: elementwise_st_def alloc_def)
  moreover have "base (contiguous (length h) c) < length (h @ [flatten c])"
    by (cases c) simp_all
  ultimately show ?thesis
    using read_alloc [OF wf, of h] by simp
qed

lemma scalar_op_st_returns:
  "\<exists>x h'. scalar_op_st g v h = (x, h') \<and> prefix h h' \<and> base x < length h'
           \<and> read_view h' x = scalar_op g (read_view h v)"
proof -
  let ?c = "scalar_op g (read_view h v)"
  have wf: "wf_array ?c"
    using wf_read_view by (rule wf_scalar_op)
  have "scalar_op_st g v h = (contiguous (length h) ?c, h @ [flatten ?c])"
    by (simp add: scalar_op_st_def alloc_def)
  moreover have "base (contiguous (length h) ?c) < length (h @ [flatten ?c])"
    by (cases ?c) simp_all
  ultimately show ?thesis
    using read_alloc [OF wf, of h] by simp
qed

lemma read_input_slice:
  assumes "prefix h h'" and "base v < length h"
  shows "read_view h' (slice_view st 2 v) = take_every st 2 (read_view h v)"
proof -
  have "read_view h' (slice_view st 2 v) = read_view h (slice_view st 2 v)"
    using assms by (intro read_view_prefix) (simp_all add: base_slice_view)
  then show ?thesis
    by (simp add: read_slice)
qed

text \<open>
  The refiner on the store computes what the refiner on values computes: it raises the
  same error, or returns views that read, in the store it leaves, as the arrays returned
  on values.
\<close>

lemma double_increments_st_refines:
  assumes bt: "base tms < length h" and b1: "base U1s < length h"
    and b2: "\<forall>U2. U2s = Some U2 \<longrightarrow> base U2 < length h"
  shows "\<exists>h'. prefix h h' \<and>
           (case double_increments (read_view h tms) (read_view h U1s)
                   (map_option (read_view h) U2s) of
              Inl e \<Rightarrow> double_increments_st tms U1s U2s h = (Inl e, h')
            | Inr res \<Rightarrow>
                (\<exists>vres. double_increments_st tms U1s U2s h = (Inr vres, h')
                   \<and> read_refined h' vres = res))"
proof -
  let ?E = "take_every 0 2 (read_view h U1s)"
  let ?O = "take_every (Suc 0) 2 (read_view h U1s)"
  have rE: "read_view k (slice_view 0 2 U1s) = ?E" if "prefix h k" for k
    using that b1 by (rule read_input_slice)
  have rO: "read_view k (slice_view (Suc 0) 2 U1s) = ?O" if "prefix h k" for k
    using that b1 by (rule read_input_slice)
  have rT: "read_view k (slice_view 0 2 tms) = take_every 0 2 (read_view h tms)"
    if "prefix h k" for k
    using that bt by (rule read_input_slice)
  have p0: "prefix h h" by simp
  show ?thesis
  proof (cases "elementwise (+) ?E ?O")
    case (Inl e)
    then have "elementwise_st (+) (slice_view 0 2 U1s) (slice_view (Suc 0) 2 U1s) h = (Inl e, h)"
      by (intro elementwise_st_raises) (simp add: rE [OF p0] rO [OF p0])
    then show ?thesis
      using Inl p0
      by (intro exI [of _ h]) (simp add: double_increments_def double_increments_st_def Let_def)
  next
    case s: (Inr s)
    then have "elementwise (+) (read_view h (slice_view 0 2 U1s))
        (read_view h (slice_view (Suc 0) 2 U1s)) = Inr s"
      by (simp add: rE [OF p0] rO [OF p0])
    from elementwise_st_returns [OF this]
    obtain x1 h1 where
      s1: "elementwise_st (+) (slice_view 0 2 U1s) (slice_view (Suc 0) 2 U1s) h = (Inr x1, h1)"
      and p1: "prefix h h1" and r1: "read_view h1 x1 = s"
      by blast
    from scalar_op_st_returns [of "\<lambda>x. x / sqrt 2" x1 h1]
    obtain nu h2 where s2: "scalar_op_st (\<lambda>x. x / sqrt 2) x1 h1 = (nu, h2)"
      and p12: "prefix h1 h2" and bnu: "base nu < length h2"
      and r2: "read_view h2 nu = scalar_op (\<lambda>x. x / sqrt 2) s"
      unfolding r1 by blast
    have p2: "prefix h h2" using p1 p12 by (rule prefix_chain(1))
    show ?thesis
    proof (cases U2s)
      case None
      have "double_increments_st tms U1s U2s h = (Inr (VRet2 (slice_view 0 2 tms) nu), h2)"
        by (simp add: double_increments_st_def Let_def s1 s2 None)
      moreover have "double_increments (read_view h tms) (read_view h U1s)
          (map_option (read_view h) U2s)
          = Inr (Ret2 (take_every 0 2 (read_view h tms)) (scalar_op (\<lambda>x. x / sqrt 2) s))"
        using s by (simp add: double_increments_def Let_def None)
      ultimately show ?thesis
        using p2 by (intro exI [of _ h2]) (simp add: rT [OF p2] r2)
    next
      case (Some U2)
      then have bU: "base U2 < length h" using b2 by simp
      let ?E2 = "take_every 0 2 (read_view h U2)"
      let ?O2 = "take_every (Suc 0) 2 (read_view h U2)"
      have rE2: "read_view k (slice_view 0 2 U2) = ?E2" if "prefix h k" for k
        using that bU by (rule read_input_slice)
      have rO2: "read_view k (slice_view (Suc 0) 2 U2) = ?O2" if "prefix h k" for k
        using that bU by (rule read_input_slice)
      show ?thesis
      proof (cases "elementwise (-) ?E ?O")
        case (Inl e)
        then have "elementwise_st (-) (slice_view 0 2 U1s) (slice_view (Suc 0) 2 U1s) h2 = (Inl e, h2)"
          by (intro elementwise_st_raises) (simp add: rE [OF p2] rO [OF p2])
        then have "double_increments_st tms U1s U2s h = (Inl e, h2)"
          by (simp add: double_increments_st_def Let_def s1 s2 Some)
        moreover have "double_increments (read_view h tms) (read_view h U1s)
            (map_option (read_view h) U2s) = Inl e"
          using s Inl by (simp add: double_increments_def Let_def Some)
        ultimately show ?thesis
          using p2 by (intro exI [of _ h2]) simp
      next
        case d: (Inr d)
        then have "elementwise (-) (read_view h2 (slice_view 0 2 U1s))
            (read_view h2 (slice_view (Suc 0) 2 U1s)) = Inr d"
          by (simp add: rE [OF p2] rO [OF p2])
        from elementwise_st_returns [OF this]
        obtain x3 h3 where
          s3: "elementwise_st (-) (slice_view 0 2 U1s) (slice_view (Suc 0) 2 U1s) h2 = (Inr x3, h3)"
          and p23: "prefix h2 h3" and r3: "read_view h3 x3 = d"
          by blast
        have p3: "prefix h h3" using p2 p23 by (rule prefix_chain(1))
        from scalar_op_st_returns [of "\<lambda>x. sqrt 3 * x" x3 h3]
        obtain sd h4 where s4: "scalar_op_st (\<lambda>x. sqrt 3 * x) x3 h3 = (sd, h4)"
          and p34: "prefix h3 h4" and bsd: "base sd < length h4"
          and r4: "read_view h4 sd = scalar_op (\<lambda>x. sqrt 3 * x) d"
          unfolding r3 by blast
        have p4: "prefix h h4" using p3 p34 by (rule prefix_chain(1))
        have p24: "prefix h2 h4" using p23 p34 by (rule prefix_chain(1))
        show ?thesis
        proof (cases "elementwise (+) (scalar_op (\<lambda>x. sqrt 3 * x) d) ?E2")
          case (Inl e)
          then have "elementwise_st (+) sd (slice_view 0 2 U2) h4 = (Inl e, h4)"
            by (intro elementwise_st_raises) (simp add: r4 rE2 [OF p4])
          then have "double_increments_st tms U1s U2s h = (Inl e, h4)"
            by (simp add: double_increments_st_def Let_def s1 s2 s3 s4 Some)
          moreover have "double_increments (read_view h tms) (read_view h U1s)
              (map_option (read_view h) U2s) = Inl e"
            using s d Inl by (simp add: double_increments_def Let_def Some)
          ultimately show ?thesis
            using p4 by (intro exI [of _ h4]) simp
        next
          case t: (Inr t)
          then have "elementwise (+) (read_view h4 sd) (read_view h4 (slice_view 0 2 U2)) = Inr t"
            by (simp add: r4 rE2 [OF p4])
          from elementwise_st_returns [OF this]
          obtain x5 h5 where s5: "elementwise_st (+) sd (slice_view 0 2 U2) h4 = (Inr x5, h5)"
            and p45: "prefix h4 h5" and r5: "read_view h5 x5 = t"
            by blast
          have p5: "prefix h h5" using p4 p45 by (rule prefix_chain(1))
          have p25: "prefix h2 h5" using p24 p45 by (rule prefix_chain(1))
          show ?thesis
          proof (cases "elementwise (+) t ?O2")
            case (Inl e)
            then have "elementwise_st (+) x5 (slice_view (Suc 0) 2 U2) h5 = (Inl e, h5)"
              by (intro elementwise_st_raises) (simp add: r5 rO2 [OF p5])
            then have "double_increments_st tms U1s U2s h = (Inl e, h5)"
              by (simp add: double_increments_st_def Let_def s1 s2 s3 s4 s5 Some)
            moreover have "double_increments (read_view h tms) (read_view h U1s)
                (map_option (read_view h) U2s) = Inl e"
              using s d t Inl by (simp add: double_increments_def Let_def Some)
            ultimately show ?thesis
              using p5 by (intro exI [of _ h5]) simp
          next
            case u: (Inr u)
            then have "elementwise (+) (read_view h5 x5) (read_view h5 (slice_view (Suc 0) 2 U2)) = Inr u"
              by (simp add: r5 rO2 [OF p5])
            from elementwise_st_returns [OF this]
            obtain x6 h6 where s6: "elementwise_st (+) x5 (slice_view (Suc 0) 2 U2) h5 = (Inr x6, h6)"
              and p56: "prefix h5 h6" and r6: "read_view h6 x6 = u"
              by blast
            have p6: "prefix h h6" using p5 p56 by (rule prefix_chain(1))
            have p26: "prefix h2 h6" using p25 p56 by (rule prefix_chain(1))
            from scalar_op_st_returns [of "\<lambda>x. x / (2 * sqrt 2)" x6 h6]
            obtain nv h7 where s7: "scalar_op_st (\<lambda>x. x / (2 * sqrt 2)) x6 h6 = (nv, h7)"
              and p67: "prefix h6 h7"
              and r7: "read_view h7 nv = scalar_op (\<lambda>x. x / (2 * sqrt 2)) u"
              unfolding r6 by blast
            have p7: "prefix h h7" using p6 p67 by (rule prefix_chain(1))
            have p27: "prefix h2 h7" using p26 p67 by (rule prefix_chain(1))
            have rnu: "read_view h7 nu = scalar_op (\<lambda>x. x / sqrt 2) s"
              using read_view_prefix [OF p27 bnu] r2 by simp
            have "double_increments_st tms U1s U2s h
                = (Inr (VRet3 (slice_view 0 2 tms) nu nv), h7)"
              by (simp add: double_increments_st_def Let_def s1 s2 s3 s4 s5 s6 s7 Some)
            moreover have "double_increments (read_view h tms) (read_view h U1s)
                (map_option (read_view h) U2s)
                = Inr (Ret3 (take_every 0 2 (read_view h tms)) (scalar_op (\<lambda>x. x / sqrt 2) s)
                        (scalar_op (\<lambda>x. x / (2 * sqrt 2)) u))"
              using s d t u by (simp add: double_increments_def Let_def Some)
            ultimately show ?thesis
              using p7 by (intro exI [of _ h7]) (simp add: rT [OF p7] rnu r7)
          qed
        qed
      qed
    qed
  qed
qed




section \<open>The refiner: formulas and lengths\<close>

text \<open>
  Claim C2. For every even \<open>n\<close>, every time grid of length \<open>n + 1\<close> and every
  one-dimensional increment sequence \<open>U1\<close> of length \<open>n\<close> (with \<open>U2\<close> omitted or
  one-dimensional of length \<open>n\<close>), \<^verbatim>\<open>double_increments\<close> returns, and its \<open>U1'\<close> is
  one-dimensional of length \<open>n div 2\<close> with
  \<open>U1'[k] = (U1[2k] + U1[2k+1]) / sqrt 2\<close> for every \<open>k < n div 2\<close>.
\<close>

theorem double_increments_U1_formula:
  assumes "even n" and "vec_len (n + 1) tms" and "length U1 = n" and "opt_vec_len n U2s"
  shows "\<exists>res. double_increments tms (A1 U1) U2s = Inr res
           \<and> vec_len (n div 2) (ret_U1s res)
           \<and> (\<forall>k < n div 2. vec (ret_U1s res) ! k = (U1 ! (2 * k) + U1 ! (2 * k + 1)) / sqrt 2)"
proof (cases U2s)
  case None
  then show ?thesis
    using assms by (simp add: double_increments_vec_None)
next
  case (Some a)
  then obtain U2 where a: "a = A1 U2" and l: "length U2 = length U1"
    using assms by (cases a) simp_all
  show ?thesis
    using assms by (simp add: Some a double_increments_vec_Some [OF _ l])
qed

theorem double_increments_U1_formula_witness:
  "even (2::nat) \<and> vec_len (2 + 1) (A1 [0, 1, 2]) \<and> length [1, 2 :: real] = 2
   \<and> opt_vec_len 2 None
   \<and> double_increments (A1 [0, 1, 2]) (A1 [1, 2]) None = Inr (Ret2 (A1 [0, 2]) (A1 [3 / sqrt 2]))
   \<and> vec (A1 [3 / sqrt 2]) ! 0 = ([1, 2] ! (2 * 0) + [1, 2] ! (2 * 0 + 1)) / sqrt 2"
  using double_increments_U1_formula [of 2 "A1 [0, 1, 2]" "[1, 2]" None]
  by (simp add: double_increments_def Let_def py_slice_def slice_len_def broadcast_def)

text \<open>
  Claim C4 (refinement length law). For every even \<open>n\<close>, \<^verbatim>\<open>double_increments\<close> on a grid of
  \<open>n + 1\<close> times and \<open>n\<close> increments returns a grid of \<open>n div 2 + 1\<close> times, exactly
  every other element of the input grid from index \<open>0\<close>, and \<open>n div 2\<close> increments
  (for \<open>U1\<close>, and for \<open>U2\<close> when it is supplied). When \<open>4\<close> divides \<open>n\<close>, applying it
  again to that result returns the grid \<^verbatim>\<open>times[::4]\<close>, of length \<open>n div 4 + 1\<close>, with
  \<open>n div 4\<close> increments.
\<close>

theorem refinement_length_law:
  assumes "even n" and "length ts = n + 1" and "vec_len n U1s" and "opt_vec_len n U2s"
  shows "\<exists>res. double_increments (A1 ts) U1s U2s = Inr res
           \<and> ret_times res = A1 (py_slice 0 2 ts)
           \<and> length (py_slice 0 2 ts) = n div 2 + 1
           \<and> (\<forall>k \<le> n div 2. py_slice 0 2 ts ! k = ts ! (2 * k))
           \<and> vec_len (n div 2) (ret_U1s res)
           \<and> opt_vec_len (n div 2) (ret_U2s res)
           \<and> ((ret_U2s res = None) = (U2s = None))
           \<and> (4 dvd n \<longrightarrow>
                (\<exists>res4. double_increments (ret_times res) (ret_U1s res) (ret_U2s res) = Inr res4
                   \<and> ret_times res4 = A1 (py_slice 0 4 ts)
                   \<and> length (py_slice 0 4 ts) = n div 4 + 1
                   \<and> (\<forall>k \<le> n div 4. py_slice 0 4 ts ! k = ts ! (4 * k))
                   \<and> vec_len (n div 4) (ret_U1s res4)
                   \<and> opt_vec_len (n div 4) (ret_U2s res4)
                   \<and> ((ret_U2s res4 = None) = (U2s = None))))"
proof -
  from refine_vec [OF assms(1,3,4), of "A1 ts"]
  obtain res where R: "double_increments (A1 ts) U1s U2s = Inr res
           \<and> ret_times res = take_every 0 2 (A1 ts)
           \<and> vec_len (n div 2) (ret_U1s res)
           \<and> opt_vec_len (n div 2) (ret_U2s res)
           \<and> ((ret_U2s res = None) = (U2s = None))" ..
  have r: "double_increments (A1 ts) U1s U2s = Inr res"
      and rt: "ret_times res = take_every 0 2 (A1 ts)"
      and r1: "vec_len (n div 2) (ret_U1s res)"
      and r2: "opt_vec_len (n div 2) (ret_U2s res)"
      and rn: "(ret_U2s res = None) = (U2s = None)"
    using R by simp_all
  have rt': "ret_times res = A1 (py_slice 0 2 ts)"
    using rt by simp
  have four: "\<exists>res4. double_increments (ret_times res) (ret_U1s res) (ret_U2s res) = Inr res4
                   \<and> ret_times res4 = A1 (py_slice 0 4 ts)
                   \<and> length (py_slice 0 4 ts) = n div 4 + 1
                   \<and> (\<forall>k \<le> n div 4. py_slice 0 4 ts ! k = ts ! (4 * k))
                   \<and> vec_len (n div 4) (ret_U1s res4)
                   \<and> opt_vec_len (n div 4) (ret_U2s res4)
                   \<and> ((ret_U2s res4 = None) = (U2s = None))" if d: "4 dvd n"
  proof -
    have e2: "even (n div 2)"
      using d by presburger
    have h: "n div 2 div 2 = n div 4"
      by presburger
    from refine_vec [OF e2 r1 r2, of "ret_times res"]
    obtain res4 where Q: "double_increments (ret_times res) (ret_U1s res) (ret_U2s res) = Inr res4
           \<and> ret_times res4 = take_every 0 2 (ret_times res)
           \<and> vec_len (n div 2 div 2) (ret_U1s res4)
           \<and> opt_vec_len (n div 2 div 2) (ret_U2s res4)
           \<and> ((ret_U2s res4 = None) = (ret_U2s res = None))" ..
    have q: "double_increments (ret_times res) (ret_U1s res) (ret_U2s res) = Inr res4"
        and qt: "ret_times res4 = take_every 0 2 (ret_times res)"
        and q1: "vec_len (n div 2 div 2) (ret_U1s res4)"
        and q2: "opt_vec_len (n div 2 div 2) (ret_U2s res4)"
        and qn: "(ret_U2s res4 = None) = (ret_U2s res = None)"
      using Q by simp_all
    have qt': "ret_times res4 = A1 (py_slice 0 4 ts)"
      using qt by (simp add: rt' py_slice_twice)
    have q1': "vec_len (n div 4) (ret_U1s res4)" using q1 by (simp only: h)
    have q2': "opt_vec_len (n div 4) (ret_U2s res4)" using q2 by (simp only: h)
    have qn': "(ret_U2s res4 = None) = (U2s = None)" using qn rn by (simp only:)
    note g4 = grid_fourths [OF d assms(2)]
    show ?thesis
      by (rule exI [of _ res4], intro conjI) (fact q qt' q1' q2' qn' g4)+
  qed
  note g2 = grid_evens [OF assms(1,2)]
  show ?thesis
    by (rule exI [of _ res], intro conjI impI) (fact r rt' r1 r2 rn g2 | erule four)+
qed


theorem refinement_length_law_witness:
  "even (4::nat) \<and> length [0, 1, 2, 3, 4 :: real] = 4 + 1 \<and> vec_len 4 (A1 [1, 2, 3, 4])
   \<and> opt_vec_len 4 None \<and> (4::nat) dvd 4
   \<and> double_increments (A1 [0, 1, 2, 3, 4]) (A1 [1, 2, 3, 4]) None
       = Inr (Ret2 (A1 [0, 2, 4]) (A1 [3 / sqrt 2, 7 / sqrt 2]))
   \<and> double_increments (A1 [0, 2, 4]) (A1 [3 / sqrt 2, 7 / sqrt 2]) None
       = Inr (Ret2 (A1 [0, 4]) (A1 [(3 / sqrt 2 + 7 / sqrt 2) / sqrt 2]))
   \<and> py_slice 0 4 [0, 1, 2, 3, 4 :: real] = [0, 4]"
  using refinement_length_law [of 4 "[0, 1, 2, 3, 4]" "A1 [1, 2, 3, 4]" None]
  by (simp add: double_increments_def Let_def py_slice_def slice_len_def broadcast_def)

text \<open>
  Claim C3. For every even \<open>n\<close> and one-dimensional \<open>U1\<close>, \<open>U2\<close> both of length \<open>n\<close>,
  \<^verbatim>\<open>double_increments\<close> called with \<open>U2\<close> returns a \<open>U2'\<close> of length \<open>n div 2\<close> with
  \<open>U2'[k] = (sqrt 3 * (U1[2k] - U1[2k+1]) + U2[2k] + U2[2k+1]) / (2 * sqrt 2)\<close> for every
  \<open>k < n div 2\<close>. Called without \<open>U2\<close> it returns the pair \<open>(times', U1')\<close> only; and
  whatever the arguments, a call without \<open>U2\<close> that returns, returns no \<open>U2'\<close>.
\<close>

theorem double_increments_U2_formula:
  assumes "even n" and "length U1 = n" and "length U2 = n"
  shows "(\<exists>res new_U2s. double_increments tms (A1 U1) (Some (A1 U2)) = Inr res
            \<and> ret_U2s res = Some new_U2s
            \<and> vec_len (n div 2) new_U2s
            \<and> (\<forall>k < n div 2. vec new_U2s ! k =
                  (sqrt 3 * (U1 ! (2 * k) - U1 ! (2 * k + 1)) + U2 ! (2 * k) + U2 ! (2 * k + 1))
                  / (2 * sqrt 2)))
         \<and> (\<exists>new_times new_U1s. double_increments tms (A1 U1) None = Inr (Ret2 new_times new_U1s))
         \<and> (\<forall>t u res. double_increments t u None = Inr res \<longrightarrow> ret_U2s res = None)"
proof -
  have g: "\<forall>t u res. double_increments t u None = Inr res \<longrightarrow> ret_U2s res = None"
    using double_increments_None_Ret2 by fastforce
  have ev: "even (length U1)" using assms by simp
  have l: "length U2 = length U1" using assms by simp
  show ?thesis
    unfolding double_increments_vec_Some [OF ev l] double_increments_vec_None [OF ev]
    using assms(2) g by simp
qed

theorem double_increments_U2_formula_witness:
  "even (2::nat) \<and> length [1, 2 :: real] = 2 \<and> length [5, 6 :: real] = 2
   \<and> double_increments (A1 [0, 1, 2]) (A1 [1, 2]) (Some (A1 [5, 6]))
       = Inr (Ret3 (A1 [0, 2]) (A1 [3 / sqrt 2]) (A1 [(11 - sqrt 3) / (2 * sqrt 2)]))
   \<and> double_increments (A1 [0, 1, 2]) (A1 [1, 2]) None = Inr (Ret2 (A1 [0, 2]) (A1 [3 / sqrt 2]))"
  using double_increments_U2_formula [of 2 "[1, 2]" "[5, 6]" "A1 [0, 1, 2]"]
  by (simp add: double_increments_def Let_def py_slice_def slice_len_def broadcast_def)

section \<open>The refiner outside its precondition\<close>

text \<open>
  Claim C8 says that an odd number \<open>n\<close> of increments raises no error. It does from
  \<open>n = 5\<close> on: the even-indexed half has \<open>(n + 1) div 2\<close> components, the odd-indexed
  half \<open>n div 2\<close>, and numpy refuses to add them.
\<close>

theorem odd_length_counterexample:
  "double_increments (A1 [0, 1, 2, 3, 4, 5]) (A1 [1, 2, 3, 4, 5]) None = Inl BroadcastError"
  by (simp add: refine_eval)

text \<open>
  Claim C8, amended. For a one-dimensional \<open>U1\<close> of odd length \<open>n\<close> (and \<open>U2\<close> omitted or
  one-dimensional of length \<open>n\<close>), \<^verbatim>\<open>double_increments\<close> raises the broadcasting
  \<^verbatim>\<open>ValueError\<close> exactly when \<open>n \<ge> 5\<close>. It completes silently only for \<open>n = 1\<close>,
  returning an empty \<open>U1'\<close>, and for \<open>n = 3\<close>, returning the two values
  \<open>(U1[0] + U1[1]) / sqrt 2\<close> and \<open>(U1[2] + U1[1]) / sqrt 2\<close>, in which the single
  odd-indexed increment is broadcast against both even-indexed ones.
\<close>

theorem double_increments_odd_length:
  assumes "odd n" and "length U1 = n" and "opt_vec_len n U2s"
  shows "((double_increments tms (A1 U1) U2s = Inl BroadcastError) = (5 \<le> n))
         \<and> (n = 1 \<longrightarrow>
              (\<exists>res. double_increments tms (A1 U1) U2s = Inr res \<and> ret_U1s res = A1 []))
         \<and> (n = 3 \<longrightarrow>
              (\<exists>res. double_increments tms (A1 U1) U2s = Inr res
                 \<and> ret_U1s res = A1 [(U1 ! 0 + U1 ! 1) / sqrt 2, (U1 ! 2 + U1 ! 1) / sqrt 2]))"
proof -
  have "n = 1 \<or> n = 3 \<or> 5 \<le> n"
    using assms(1) by presburger
  then consider "n = 1" | "n = 3" | "5 \<le> n"
    by (elim disjE) simp_all
  then show ?thesis
  proof cases
    case 1
    with double_increments_one [of U1 U2s tms] assms show ?thesis by auto
  next
    case 2
    with double_increments_three [of U1 U2s tms] assms show ?thesis by auto
  next
    case 3
    with double_increments_odd_fails [OF assms(1) _ assms(2), of tms U2s] show ?thesis by simp
  qed
qed

theorem double_increments_odd_length_witness:
  "odd (3::nat) \<and> length [1, 2, 3 :: real] = 3 \<and> opt_vec_len 3 None
   \<and> double_increments (A1 [0, 1, 2, 3]) (A1 [1, 2, 3]) None \<noteq> Inl BroadcastError
   \<and> (\<exists>res. double_increments (A1 [0, 1, 2, 3]) (A1 [1, 2, 3]) None = Inr res
         \<and> ret_U1s res = A1 [(1 + 2) / sqrt 2, (3 + 2) / sqrt 2])"
  using double_increments_odd_length [of 3 "[1, 2, 3]" None "A1 [0, 1, 2, 3]"]
  by simp

text \<open>
  Claim C6 says that on a batch of \<open>N\<close> rows of length \<open>n\<close> the refiner acts on each row
  separately and returns \<open>N\<close> rows of length \<open>n div 2\<close>; the docstring of the source
  says the same (\<^verbatim>\<open>U1s : numpy.array(N, len(times) - 1)\<close>, rows being independent
  trajectories). The code slices the first axis, which is the batch axis: on the two rows
  \<open>[1, 2]\<close> and \<open>[3, 4]\<close> it returns the single row \<open>[4 / sqrt 2, 6 / sqrt 2]\<close>, the sum
  of the two trajectories, where the rows refined one by one give \<open>[3 / sqrt 2]\<close> and
  \<open>[7 / sqrt 2]\<close>.
\<close>

theorem batch_rows_are_paired:
  "double_increments (A1 [0, 1, 2]) (A2 2 [[1, 2], [3, 4]]) None
     = Inr (Ret2 (A1 [0, 2]) (A2 2 [[4 / sqrt 2, 6 / sqrt 2]]))
   \<and> double_increments (A1 [0, 1, 2]) (A1 [1, 2]) None = Inr (Ret2 (A1 [0, 2]) (A1 [3 / sqrt 2]))
   \<and> double_increments (A1 [0, 1, 2]) (A1 [3, 4]) None = Inr (Ret2 (A1 [0, 2]) (A1 [7 / sqrt 2]))"
  by (simp add: refine_eval elementwise2_def broadcast_row_def)

section \<open>The rate estimator\<close>



text \<open>
  Claim C7 (two-run determinism). With \<^verbatim>\<open>times\<close>, \<^verbatim>\<open>U1s\<close> and \<^verbatim>\<open>U2s\<close> all supplied, and the
  integrator a function of its arguments, the rate does not depend on the state of the
  random source, and no sample is consumed: after one run, and after a second run that
  starts where the first ended, the random source is what it was.
\<close>

theorem calc_rate_two_runs:
  "fst (calc_rate integrate rho_0 tms (Some U1s) (Some U2s) g)
     = fst (calc_rate integrate rho_0 tms (Some U1s) (Some U2s) g')
   \<and> snd (calc_rate integrate rho_0 tms (Some U1s) (Some U2s) g) = g
   \<and> snd (calc_rate integrate rho_0 tms (Some U1s) (Some U2s)
            (snd (calc_rate integrate rho_0 tms (Some U1s) (Some U2s) g))) = g"
  by (simp add: calc_rate_supplied)




text \<open>
  Claim C10. Whenever \<^verbatim>\<open>calc_rate\<close> is called on a grid of \<open>n + 1\<close> times with \<^verbatim>\<open>U2s\<close>
  omitted, whether or not \<^verbatim>\<open>U1s\<close> is supplied, it draws \<open>n\<close> fresh samples for \<^verbatim>\<open>U2s\<close>
  (after those for \<^verbatim>\<open>U1s\<close>, if any) before refining: the call is the call with that
  array supplied, made on the advanced random source. Both refinement calls then
  receive an array for \<^verbatim>\<open>U2s\<close> and return three values, never two, so the unpacking
  never fails; and the result does not depend on what the integrator does when its
  \<^verbatim>\<open>U2s\<close> argument is \<^verbatim>\<open>None\<close>, since no such call is made.
\<close>

theorem calc_rate_draws_U2:
  fixes integrate :: "('rho, 'x) integrator"
  assumes "len0 tms = n + 1"
  shows "\<exists>U1 g1.
           draw_if_none (int n) U1s g = (Inr U1, g1)
         \<and> calc_rate integrate rho_0 tms U1s None g
             = calc_rate integrate rho_0 tms (Some U1)
                 (Some (A1 (map (samples g1) [consumed g1..<consumed g1 + n])))
                 (g1\<lparr>consumed := consumed g1 + n\<rparr>)
         \<and> snd (calc_rate integrate rho_0 tms U1s None g) = g1\<lparr>consumed := consumed g1 + n\<rparr>
         \<and> fst (calc_rate integrate rho_0 tms U1s None g) \<noteq> Inl (Raised UnpackError)
         \<and> (\<forall>r2. double_increments tms U1
                     (Some (A1 (map (samples g1) [consumed g1..<consumed g1 + n]))) = Inr r2
               \<longrightarrow> (\<exists>v2. ret_U2s r2 = Some v2)
                   \<and> (\<forall>a b. r2 \<noteq> Ret2 a b)
                   \<and> (\<forall>a b. double_increments (ret_times r2) (ret_U1s r2) (ret_U2s r2)
                                 \<noteq> Inr (Ret2 a b)))
         \<and> (\<forall>integrate'.
               (\<forall>r t u v. integrate' r t u (Some v) = integrate r t u (Some v))
               \<longrightarrow> calc_rate integrate' rho_0 tms U1s None g
                     = calc_rate integrate rho_0 tms U1s None g)"
proof -
  obtain U1 g1 where d: "draw_if_none (int n) U1s g = (Inr U1, g1)"
    by (cases U1s) (simp_all add: draw_if_none_def randn_def)
  let ?U2 = "A1 (map (samples g1) [consumed g1..<consumed g1 + n])"
  let ?g2 = "g1\<lparr>consumed := consumed g1 + n\<rparr>"
  have inc: "int (len0 tms) - 1 = int n"
    using assms by simp
  have d2: "draw_if_none (int n) None g1 = (Inr ?U2, ?g2)"
    by (simp add: draw_if_none_def randn_def)
  have eq: "calc_rate i rho_0 tms U1s None g = (calc_rate_body i rho_0 tms U1 ?U2, ?g2)" for i :: "('rho, 'x) integrator"
    by (simp add: calc_rate_def Let_def inc d d2)
  show ?thesis
  proof (rule exI [of _ U1], rule exI [of _ g1], intro conjI allI impI)
    show "draw_if_none (int n) U1s g = (Inr U1, g1)" by (fact d)
    show "calc_rate integrate rho_0 tms U1s None g
             = calc_rate integrate rho_0 tms (Some U1) (Some ?U2) ?g2"
      by (simp only: eq calc_rate_supplied)
    show "snd (calc_rate integrate rho_0 tms U1s None g) = ?g2"
      by (simp only: eq snd_conv)
    show "fst (calc_rate integrate rho_0 tms U1s None g) \<noteq> Inl (Raised UnpackError)"
      by (rule calc_rate_no_unpack)
    fix r2 assume r: "double_increments tms U1 (Some ?U2) = Inr r2"
    then obtain a b c where r2: "r2 = Ret3 a b c"
      using double_increments_Some_Ret3 by blast
    show "\<exists>v2. ret_U2s r2 = Some v2"
      by (simp add: r2)
    show "r2 \<noteq> Ret2 x y" for x y
      by (simp add: r2)
    show "double_increments (ret_times r2) (ret_U1s r2) (ret_U2s r2) \<noteq> Inr (Ret2 x y)" for x y
      by (simp add: r2 double_increments_Some_not_Ret2)
  next
    fix integrate' :: "('rho, 'x) integrator"
    assume "\<forall>r t u v. integrate' r t u (Some v) = integrate r t u (Some v)"
    then have "calc_rate_body integrate' rho_0 tms U1 ?U2 = calc_rate_body integrate rho_0 tms U1 ?U2"
      by (rule calc_rate_body_cong)
    then show "calc_rate integrate' rho_0 tms U1s None g = calc_rate integrate rho_0 tms U1s None g"
      by (simp only: eq)
  qed
qed


theorem calc_rate_draws_U2_witness:
  "len0 (A1 [0, 1, 2, 3, 4]) = 4 + 1
   \<and> (\<forall>(r::unit) t (u::ndarray option) v.
          (case Some v of None \<Rightarrow> (Inl () :: unit + ndarray list)
                              | Some w \<Rightarrow> Inr [A1 [vec t ! 1 - vec t ! 0]])
                = (Inr [A1 [vec t ! 1 - vec t ! 0]] :: unit + ndarray list))
   \<and> calc_rate (\<lambda>(r::unit) t u v. case v of None \<Rightarrow> (Inl () :: unit + ndarray list)
                                     | Some w \<Rightarrow> Inr [A1 [vec t ! 1 - vec t ! 0]]) ()
        (A1 [0, 1, 2, 3, 4]) (Some (A1 [1, 2, 3, 4])) None \<lparr>samples = real, consumed = 0\<rparr>
      = calc_rate (\<lambda>(r::unit) t u v. (Inr [A1 [vec t ! 1 - vec t ! 0]] :: unit + ndarray list)) ()
        (A1 [0, 1, 2, 3, 4]) (Some (A1 [1, 2, 3, 4])) None \<lparr>samples = real, consumed = 0\<rparr>
   \<and> snd (calc_rate (\<lambda>(r::unit) t u v. (Inr [A1 [vec t ! 1 - vec t ! 0]] :: unit + ndarray list)) ()
        (A1 [0, 1, 2, 3, 4]) (Some (A1 [1, 2, 3, 4])) None \<lparr>samples = real, consumed = 0\<rparr>)
      = \<lparr>samples = real, consumed = 4\<rparr>"
proof -
  let ?I = "\<lambda>(r::unit) (t::ndarray) (u::ndarray option) (v::ndarray option).
              (Inr [A1 [vec t ! 1 - vec t ! 0]] :: unit + ndarray list)"
  let ?I' = "\<lambda>(r::unit) (t::ndarray) (u::ndarray option) (v::ndarray option).
              case v of None \<Rightarrow> (Inl () :: unit + ndarray list)
              | Some w \<Rightarrow> Inr [A1 [vec t ! 1 - vec t ! 0]]"
  let ?g = "\<lparr>samples = real, consumed = 0\<rparr>"
  let ?U1 = "Some (A1 [1, 2, 3, 4])"
  have len: "len0 (A1 [0, 1, 2, 3, 4]) = 4 + 1"
    by simp
  have agree: "\<forall>r t u v. ?I' r t u (Some v) = ?I r t u (Some v)"
    by simp
  from calc_rate_draws_U2 [OF len, of ?U1 ?g ?I "()"]
  obtain U1 where "\<exists>g1. draw_if_none (int 4) ?U1 ?g = (Inr U1, g1)
         \<and> calc_rate ?I () (A1 [0, 1, 2, 3, 4]) ?U1 None ?g
             = calc_rate ?I () (A1 [0, 1, 2, 3, 4]) (Some U1)
                 (Some (A1 (map (samples g1) [consumed g1..<consumed g1 + 4])))
                 (g1\<lparr>consumed := consumed g1 + 4\<rparr>)
         \<and> snd (calc_rate ?I () (A1 [0, 1, 2, 3, 4]) ?U1 None ?g) = g1\<lparr>consumed := consumed g1 + 4\<rparr>
         \<and> fst (calc_rate ?I () (A1 [0, 1, 2, 3, 4]) ?U1 None ?g) \<noteq> Inl (Raised UnpackError)
         \<and> (\<forall>r2. double_increments (A1 [0, 1, 2, 3, 4]) U1
                     (Some (A1 (map (samples g1) [consumed g1..<consumed g1 + 4]))) = Inr r2
               \<longrightarrow> (\<exists>v2. ret_U2s r2 = Some v2)
                   \<and> (\<forall>a b. r2 \<noteq> Ret2 a b)
                   \<and> (\<forall>a b. double_increments (ret_times r2) (ret_U1s r2) (ret_U2s r2)
                                 \<noteq> Inr (Ret2 a b)))
         \<and> (\<forall>integrate'.
               (\<forall>r t u v. integrate' r t u (Some v) = ?I r t u (Some v))
               \<longrightarrow> calc_rate integrate' () (A1 [0, 1, 2, 3, 4]) ?U1 None ?g
                     = calc_rate ?I () (A1 [0, 1, 2, 3, 4]) ?U1 None ?g)" ..
  then obtain g1 where W: "draw_if_none (int 4) ?U1 ?g = (Inr U1, g1)
         \<and> calc_rate ?I () (A1 [0, 1, 2, 3, 4]) ?U1 None ?g
             = calc_rate ?I () (A1 [0, 1, 2, 3, 4]) (Some U1)
                 (Some (A1 (map (samples g1) [consumed g1..<consumed g1 + 4])))
                 (g1\<lparr>consumed := consumed g1 + 4\<rparr>)
         \<and> snd (calc_rate ?I () (A1 [0, 1, 2, 3, 4]) ?U1 None ?g) = g1\<lparr>consumed := consumed g1 + 4\<rparr>
         \<and> fst (calc_rate ?I () (A1 [0, 1, 2, 3, 4]) ?U1 None ?g) \<noteq> Inl (Raised UnpackError)
         \<and> (\<forall>r2. double_increments (A1 [0, 1, 2, 3, 4]) U1
                     (Some (A1 (map (samples g1) [consumed g1..<consumed g1 + 4]))) = Inr r2
               \<longrightarrow> (\<exists>v2. ret_U2s r2 = Some v2)
                   \<and> (\<forall>a b. r2 \<noteq> Ret2 a b)
                   \<and> (\<forall>a b. double_increments (ret_times r2) (ret_U1s r2) (ret_U2s r2)
                                 \<noteq> Inr (Ret2 a b)))
         \<and> (\<forall>integrate'.
               (\<forall>r t u v. integrate' r t u (Some v) = ?I r t u (Some v))
               \<longrightarrow> calc_rate integrate' () (A1 [0, 1, 2, 3, 4]) ?U1 None ?g
                     = calc_rate ?I () (A1 [0, 1, 2, 3, 4]) ?U1 None ?g)" ..
  from W have g1: "g1 = ?g"
    by (simp add: draw_if_none_def)
  from W have s: "snd (calc_rate ?I () (A1 [0, 1, 2, 3, 4]) ?U1 None ?g) = g1\<lparr>consumed := consumed g1 + 4\<rparr>"
    by (elim conjE)
  from W have ext: "(\<forall>r t u v. ?I' r t u (Some v) = ?I r t u (Some v))
               \<longrightarrow> calc_rate ?I' () (A1 [0, 1, 2, 3, 4]) ?U1 None ?g
                     = calc_rate ?I () (A1 [0, 1, 2, 3, 4]) ?U1 None ?g"
    by (elim conjE allE [of _ ?I'])
  have e: "calc_rate ?I' () (A1 [0, 1, 2, 3, 4]) ?U1 None ?g
                     = calc_rate ?I () (A1 [0, 1, 2, 3, 4]) ?U1 None ?g"
    using ext agree by (rule mp)
  have s': "snd (calc_rate ?I () (A1 [0, 1, 2, 3, 4]) ?U1 None ?g) = \<lparr>samples = real, consumed = 4\<rparr>"
    unfolding s g1 by simp
  show ?thesis
    by (intro conjI len e s') simp
qed

section \<open>The refiner: mutation and aliasing\<close>

text \<open>
  Claim C9 says that the refiner mutates none of its arguments and that none of the
  sequences it returns aliases an argument. The second half fails for the time grid:
  \<^verbatim>\<open>times[::2]\<close> is a basic slice, which numpy returns as a view on the buffer of
  \<^verbatim>\<open>times\<close>. On a grid of three times stored at address \<open>0\<close> the returned grid is the
  view with stride \<open>2\<close> on that same buffer.
\<close>

theorem times_view_counterexample:
  "double_increments_st \<lparr>base = 0, offset = 0, dims = [(3, 1)]\<rparr>
       \<lparr>base = 1, offset = 0, dims = [(2, 1)]\<rparr> None [[0, 1, 2], [1, 2]]
     = (Inr (VRet2 \<lparr>base = 0, offset = 0, dims = [(2, 2)]\<rparr>
                   \<lparr>base = 3, offset = 0, dims = [(1, 1)]\<rparr>),
        [[0, 1, 2], [1, 2], [3], [3 / sqrt 2]])
   \<and> shares_memory \<lparr>base = 0, offset = 0, dims = [(2, 2)]\<rparr>
         \<lparr>base = 0, offset = 0, dims = [(3, 1)]\<rparr>"
proof (rule conjI)
  show "double_increments_st \<lparr>base = 0, offset = 0, dims = [(3, 1)]\<rparr>
       \<lparr>base = 1, offset = 0, dims = [(2, 1)]\<rparr> None [[0, 1, 2], [1, 2]]
     = (Inr (VRet2 \<lparr>base = 0, offset = 0, dims = [(2, 2)]\<rparr>
                   \<lparr>base = 3, offset = 0, dims = [(1, 1)]\<rparr>),
        [[0, 1, 2], [1, 2], [3], [3 / sqrt 2]])"
    by (simp add: double_increments_st_def Let_def elementwise_st_def scalar_op_st_def alloc_def
        read_view_def slice_view_def slice_len_def broadcast_def)
  show "shares_memory \<lparr>base = 0, offset = 0, dims = [(2, 2)]\<rparr>
         \<lparr>base = 0, offset = 0, dims = [(3, 1)]\<rparr>"
    by (simp add: shares_memory_def cells_def numeral_2_eq_2)
qed

text \<open>
  Claim C9, amended. For every call on arrays of the store, whether it returns or raises:
  every buffer that existed before the call is unchanged, so \<^verbatim>\<open>times\<close>, \<^verbatim>\<open>U1s\<close> and
  \<^verbatim>\<open>U2s\<close> read element for element as before. When the call returns, \<open>U1'\<close> and \<open>U2'\<close>
  lie in buffers allocated by the call and share memory with no array that existed
  before it; \<open>times'\<close> is the view \<^verbatim>\<open>times[::2]\<close> on the buffer of \<^verbatim>\<open>times\<close> and shares
  memory with it whenever \<^verbatim>\<open>times\<close> has an element.
\<close>

theorem double_increments_st_effects:
  assumes "double_increments_st tms U1s U2s h = (r, h')"
    and "base tms < length h" and "base U1s < length h"
    and "\<forall>U2. U2s = Some U2 \<longrightarrow> base U2 < length h"
  shows "prefix h h'
       \<and> read_view h' tms = read_view h tms
       \<and> read_view h' U1s = read_view h U1s
       \<and> (\<forall>U2. U2s = Some U2 \<longrightarrow> read_view h' U2 = read_view h U2)
       \<and> (\<forall>res. r = Inr res \<longrightarrow>
              vret_times res = slice_view 0 2 tms
            \<and> base (vret_times res) = base tms
            \<and> (cells tms \<noteq> [] \<longrightarrow> shares_memory (vret_times res) tms)
            \<and> length h \<le> base (vret_U1s res)
            \<and> (\<forall>x. base x < length h \<longrightarrow> \<not> shares_memory (vret_U1s res) x)
            \<and> (\<forall>v. vret_U2s res = Some v \<longrightarrow>
                   length h \<le> base v
                 \<and> (\<forall>x. base x < length h \<longrightarrow> \<not> shares_memory v x)))"
proof -
  note f = double_increments_st_frame [OF assms(1)]
  have p: "prefix h h'" by (rule f(1))
  have a: "read_view h' tms = read_view h tms"
    using p assms(2) by (rule read_view_prefix)
  have b: "read_view h' U1s = read_view h U1s"
    using p assms(3) by (rule read_view_prefix)
  have c: "\<forall>U2. U2s = Some U2 \<longrightarrow> read_view h' U2 = read_view h U2"
    using p assms(4) by (auto intro: read_view_prefix)
  have d: "vret_times res = slice_view 0 2 tms
            \<and> base (vret_times res) = base tms
            \<and> (cells tms \<noteq> [] \<longrightarrow> shares_memory (vret_times res) tms)
            \<and> length h \<le> base (vret_U1s res)
            \<and> (\<forall>x. base x < length h \<longrightarrow> \<not> shares_memory (vret_U1s res) x)
            \<and> (\<forall>v. vret_U2s res = Some v \<longrightarrow>
                   length h \<le> base v
                 \<and> (\<forall>x. base x < length h \<longrightarrow> \<not> shares_memory v x))"
    if r: "r = Inr res" for res
  proof (intro conjI allI impI)
    show t: "vret_times res = slice_view 0 2 tms"
      using r by (rule f(2))
    show "base (vret_times res) = base tms"
      by (simp add: t base_slice_view)
    show "shares_memory (vret_times res) tms" if "cells tms \<noteq> []"
      unfolding t using that by (rule slice_view_shares)
    show u: "length h \<le> base (vret_U1s res)"
      using r by (rule f(3))
    show "\<not> shares_memory (vret_U1s res) x" if "base x < length h" for x
      using that u by (rule fresh_not_shared)
    fix v assume v: "vret_U2s res = Some v"
    show w: "length h \<le> base v"
      using r v by (rule f(4))
    show "\<not> shares_memory v x" if "base x < length h" for x
      using that w by (rule fresh_not_shared)
  qed
  have d': "\<forall>res. r = Inr res \<longrightarrow>
              vret_times res = slice_view 0 2 tms
            \<and> base (vret_times res) = base tms
            \<and> (cells tms \<noteq> [] \<longrightarrow> shares_memory (vret_times res) tms)
            \<and> length h \<le> base (vret_U1s res)
            \<and> (\<forall>x. base x < length h \<longrightarrow> \<not> shares_memory (vret_U1s res) x)
            \<and> (\<forall>v. vret_U2s res = Some v \<longrightarrow>
                   length h \<le> base v
                 \<and> (\<forall>x. base x < length h \<longrightarrow> \<not> shares_memory v x))"
    by (intro allI impI) (rule d)
  show ?thesis
    by (rule conjI [OF p conjI [OF a conjI [OF b conjI [OF c d']]]])
qed

theorem double_increments_st_effects_witness:
  "base \<lparr>base = 0, offset = 0, dims = [(3, 1)]\<rparr> < length [[0, 1, 2], [1, 2 :: real]]
   \<and> base \<lparr>base = 1, offset = 0, dims = [(2, 1)]\<rparr> < length [[0, 1, 2], [1, 2 :: real]]
   \<and> prefix [[0, 1, 2], [1, 2]]
        (snd (double_increments_st \<lparr>base = 0, offset = 0, dims = [(3, 1)]\<rparr>
               \<lparr>base = 1, offset = 0, dims = [(2, 1)]\<rparr> None [[0, 1, 2], [1, 2]]))
   \<and> fst (double_increments_st \<lparr>base = 0, offset = 0, dims = [(3, 1)]\<rparr>
               \<lparr>base = 1, offset = 0, dims = [(2, 1)]\<rparr> None [[0, 1, 2], [1, 2]])
        = Inr (VRet2 \<lparr>base = 0, offset = 0, dims = [(2, 2)]\<rparr>
                     \<lparr>base = 3, offset = 0, dims = [(1, 1)]\<rparr>)
   \<and> \<not> shares_memory \<lparr>base = 3, offset = 0, dims = [(1, 1)]\<rparr>
           \<lparr>base = 1, offset = 0, dims = [(2, 1)]\<rparr>"
  using double_increments_st_effects
    [of "\<lparr>base = 0, offset = 0, dims = [(3, 1)]\<rparr>" "\<lparr>base = 1, offset = 0, dims = [(2, 1)]\<rparr>"
        None "[[0, 1, 2], [1, 2]]"
        "Inr (VRet2 \<lparr>base = 0, offset = 0, dims = [(2, 2)]\<rparr>
                    \<lparr>base = 3, offset = 0, dims = [(1, 1)]\<rparr>)"
        "[[0, 1, 2], [1, 2], [3], [3 / sqrt 2]]"]
  by (simp add: double_increments_st_def Let_def elementwise_st_def scalar_op_st_def alloc_def
      read_view_def slice_view_def slice_len_def broadcast_def shares_memory_def cells_def)

end
